theory Spec2Isabelle
  imports Main
begin

section \<open>Python strings and the POSIX flavour of \<open>os.path\<close>\<close>

text \<open>
  The plugin manipulates paths through \<open>os.path\<close>. The functions below follow
  \<open>posixpath\<close>, the implementation of \<open>os.path\<close> on POSIX hosts, where the separator is
  \<open>/\<close> and \<open>splitdrive\<close> never finds a drive. Python strings are character lists.
\<close>

definition sep :: char where
  "sep = CHR ''/''"

definition startswith :: "string \<Rightarrow> string \<Rightarrow> bool" where
  \<comment> \<open>\<open>s.startswith(p)\<close>\<close>
  "startswith s p = (take (length p) s = p)"

definition endswith :: "string \<Rightarrow> string \<Rightarrow> bool" where
  \<comment> \<open>\<open>s.endswith(p)\<close>\<close>
  "endswith s p = (length p \<le> length s \<and> drop (length s - length p) s = p)"

definition rstrip_sep :: "string \<Rightarrow> string" where
  \<comment> \<open>\<open>s.rstrip('/')\<close>\<close>
  "rstrip_sep s = rev (dropWhile (\<lambda>c. c = sep) (rev s))"

definition rfind_sep_succ :: "string \<Rightarrow> nat" where
  \<comment> \<open>\<open>s.rfind('/') + 1\<close>: the index just after the last separator, 0 when there is none\<close>
  "rfind_sep_succ s = length (dropWhile (\<lambda>c. c \<noteq> sep) (rev s))"

fun str_split :: "char \<Rightarrow> string \<Rightarrow> string list" where
  \<comment> \<open>\<open>s.split(c)\<close>: the fields between the occurrences of \<open>c\<close>, never an empty list\<close>
  "str_split c [] = [[]]"
| "str_split c (x # xs) =
     (if x = c then [] # str_split c xs
      else (case str_split c xs of y # ys \<Rightarrow> (x # y) # ys | [] \<Rightarrow> [[x]]))"

fun str_join :: "string \<Rightarrow> string list \<Rightarrow> string" where
  \<comment> \<open>\<open>s.join(xs)\<close>\<close>
  "str_join s [] = []"
| "str_join s [x] = x"
| "str_join s (x # y # ys) = x @ s @ str_join s (y # ys)"

definition join_step :: "string \<Rightarrow> string \<Rightarrow> string" where
  \<comment> \<open>one round of the loop of \<open>posixpath.join\<close>\<close>
  "join_step path b =
     (if startswith b [sep] then b
      else if path = [] \<or> endswith path [sep] then path @ b
      else path @ [sep] @ b)"

definition os_join :: "string \<Rightarrow> string list \<Rightarrow> string" where
  \<comment> \<open>\<open>os.path.join(a, *p)\<close>\<close>
  "os_join a p = foldl join_step a p"

fun os_join_star :: "string list \<Rightarrow> string" where
  \<comment> \<open>\<open>os.path.join(*parts)\<close> for a list with at least one element\<close>
  "os_join_star (a # p) = os_join a p"

definition os_split :: "string \<Rightarrow> string \<times> string" where
  \<comment> \<open>\<open>os.path.split(p)\<close>\<close>
  "os_split p =
     (let i = rfind_sep_succ p;
          head = take i p;
          tail = drop i p
      in (if head \<noteq> [] \<and> head \<noteq> replicate (length head) sep then rstrip_sep head else head,
          tail))"

definition splitdrive :: "string \<Rightarrow> string \<times> string" where
  \<comment> \<open>\<open>os.path.splitdrive(p)\<close>: \<open>p[:0], p\<close> on POSIX\<close>
  "splitdrive p = (take 0 p, p)"

definition norm_step :: "nat \<Rightarrow> string list \<Rightarrow> string \<Rightarrow> string list" where
  \<comment> \<open>one round of the loop of \<open>posixpath.normpath\<close> over the components\<close>
  "norm_step initial_slashes new_comps cmp =
     (if cmp = [] \<or> cmp = ''.'' then new_comps
      else if cmp \<noteq> ''..'' \<or> (initial_slashes = 0 \<and> new_comps = [])
              \<or> (new_comps \<noteq> [] \<and> last new_comps = ''..'')
        then new_comps @ [cmp]
      else if new_comps \<noteq> [] then butlast new_comps
      else new_comps)"

definition initial_slashes_of :: "string \<Rightarrow> nat" where
  \<comment> \<open>POSIX keeps exactly two leading slashes and folds three or more into one\<close>
  "initial_slashes_of path =
     (if startswith path [sep]
      then (if startswith path [sep, sep] \<and> \<not> startswith path [sep, sep, sep] then 2 else 1)
      else 0)"

definition normpath :: "string \<Rightarrow> string" where
  \<comment> \<open>\<open>os.path.normpath(path)\<close>\<close>
  "normpath path =
     (if path = [] then ''.''
      else
        let initial_slashes = initial_slashes_of path;
            comps = foldl (norm_step initial_slashes) [] (str_split sep path);
            joined = str_join [sep] comps;
            path' = (if initial_slashes \<noteq> 0 then replicate initial_slashes sep @ joined
                     else joined)
        in (if path' = [] then ''.'' else path'))"

section \<open>Splitting a path into segments\<close>

function split_loop :: "string \<Rightarrow> string list \<Rightarrow> string list" where
  \<comment> \<open>the \<open>while 1\<close> loop of \<open>split_path\<close>; \<open>folders\<close> grows at its end\<close>
  "split_loop path folders =
     (case os_split path of (path', folder) \<Rightarrow>
        if folder \<noteq> [] then split_loop path' (folders @ [folder])
        else if path' \<noteq> [] then folders @ [path']
        else folders)"
  by pat_completeness auto
termination
proof (relation "measure (\<lambda>(path, folders). length path)")
  show "wf (measure (\<lambda>(path, folders). length path))"
    by simp
next
  fix path :: string and folders :: "string list" and x y
  assume a: "(x, y) = os_split path" and y: "y \<noteq> []"
  let ?i = "rfind_sep_succ path"
  have le: "?i \<le> length path"
    unfolding rfind_sep_succ_def by (metis length_dropWhile_le length_rev)
  from a have "y = drop ?i path"
    by (simp add: os_split_def Let_def)
  with y have lt: "?i < length path"
    by simp
  have "length (rstrip_sep (take ?i path)) \<le> length (take ?i path)"
    unfolding rstrip_sep_def by (metis length_dropWhile_le length_rev)
  moreover from a have "x = rstrip_sep (take ?i path) \<or> x = take ?i path"
    by (auto simp: os_split_def Let_def split: if_splits)
  ultimately have "length x \<le> ?i"
    by auto
  with lt show "((x, folders @ [y]), (path, folders)) \<in> measure (\<lambda>(path, folders). length path)"
    by simp
qed

declare split_loop.simps [simp del]

definition split_path :: "string \<Rightarrow> string list" where
  "split_path start =
     (let path = normpath start in
      case splitdrive path of (drive, path_and_file) \<Rightarrow>
      case os_split path_and_file of (path', file) \<Rightarrow>
        let folders = split_loop path' [file];
            parts = rev folders
        in (if drive \<noteq> [] then [drive] @ parts else parts))"

section \<open>The host: file system, settings and interpreter\<close>

text \<open>
  The resolver reads its surroundings in three ways: \<open>os.path.isfile\<close>, opening and parsing
  a \<open>package.json\<close>, and the plugin settings. They are the fields of a record that every
  resolver function receives. Each function returns, next to its value, the list of the
  file-system accesses it made, in the order it made them.
\<close>

datatype json =
    JNull
  | JBool bool
  | JNumber
  | JString string
  | JArray "json list"
  | JObject "string \<Rightarrow> json option"

datatype file_read =
    OpenFails    \<comment> \<open>\<open>open\<close> raises \<open>OSError\<close>\<close>
  | NotJson      \<comment> \<open>\<open>json.load\<close> raises \<open>ValueError\<close>: the contents are not valid JSON\<close>
  | Json json    \<comment> \<open>the value \<open>json.load\<close> returns\<close>

datatype py_error =
    OSError
  | ManifestParseError   \<comment> \<open>the \<open>ValueError\<close> of \<open>json.load\<close>\<close>
  | AttributeError       \<comment> \<open>\<open>.get\<close> on a JSON value that is not an object\<close>
  | TypeError            \<comment> \<open>\<open>os.path.join\<close> with a \<open>main\<close> that is not a string\<close>
  | KeyError string      \<comment> \<open>a variable missing from \<open>window.extract_variables()\<close>\<close>

datatype fs_event =
    Probe string   \<comment> \<open>\<open>os.path.isfile(p)\<close>\<close>
  | Read string    \<comment> \<open>\<open>open(p, 'r')\<close> followed by \<open>json.load\<close>\<close>

record host =
  isfile :: "string \<Rightarrow> bool"
  json_load :: "string \<Rightarrow> file_read"
  resolve_extensions :: "string list"
  is_node_modules :: "string \<Rightarrow> bool"

text \<open>
  The field \<open>is_node_modules\<close> is the interpreter's answer to the identity test
  \<open>parts[i] is 'node_modules'\<close> of \<open>node_modules_paths\<close>. Python's \<open>is\<close> compares objects,
  not characters: the test holds only when the segment is the very object of the constant.
  The segments are slices that \<open>os.path.split\<close> cuts out of the path string at run time, and
  CPython allocates a new object for such a slice, so in CPython the answer is \<open>False\<close> for
  every segment (\<open>cpython_is\<close>). A comparison by \<open>==\<close> would answer \<open>by_equality\<close>.
\<close>

definition cpython_is :: "string \<Rightarrow> bool" where
  "cpython_is segment = False"

definition by_equality :: "string \<Rightarrow> bool" where
  "by_equality segment = (segment = ''node_modules'')"

definition truthy :: "string option \<Rightarrow> bool" where
  \<comment> \<open>Python's truth value of \<open>None\<close> or a string\<close>
  "truthy v = (case v of None \<Rightarrow> False | Some s \<Rightarrow> s \<noteq> [])"

section \<open>The resolver\<close>

definition returnIfFile :: "host \<Rightarrow> string option \<Rightarrow> string option \<Rightarrow> string option \<times> fs_event list" where
  "returnIfFile h path file =
     (if \<not> truthy path then (None, [])
      else case path of
        None \<Rightarrow> (None, [])
      | Some p \<Rightarrow>
          let file' = (if truthy file then (case file of Some f \<Rightarrow> os_join p [f] | None \<Rightarrow> p)
                       else p)
          in (if isfile h file' then (Some file', [Probe file']) else (None, [Probe file'])))"

fun load_as_file_loop :: "host \<Rightarrow> string \<Rightarrow> string list \<Rightarrow> string option \<times> fs_event list" where
  \<comment> \<open>the \<open>for extension in ...\<close> loop of \<open>load_as_file\<close>\<close>
  "load_as_file_loop h path [] = (None, [])"
| "load_as_file_loop h path (extension # rest) =
     (case returnIfFile h (Some (path @ extension)) None of (file, t) \<Rightarrow>
        if truthy file then (file, t)
        else (case load_as_file_loop h path rest of (r, t') \<Rightarrow> (r, t @ t')))"

definition load_as_file :: "host \<Rightarrow> string \<Rightarrow> string option \<times> fs_event list" where
  "load_as_file h path =
     (case returnIfFile h (Some path) None of (file, t) \<Rightarrow>
        if truthy file then (file, t)
        else (case load_as_file_loop h path (resolve_extensions h) of (r, t') \<Rightarrow> (r, t @ t')))"

fun load_index_loop :: "host \<Rightarrow> string \<Rightarrow> string list \<Rightarrow> string option \<times> fs_event list" where
  "load_index_loop h path [] = (None, [])"
| "load_index_loop h path (extension # rest) =
     (case returnIfFile h (Some path) (Some (''index'' @ extension)) of (file, t) \<Rightarrow>
        if truthy file then (file, t)
        else (case load_index_loop h path rest of (r, t') \<Rightarrow> (r, t @ t')))"

definition load_index :: "host \<Rightarrow> string \<Rightarrow> string option \<times> fs_event list" where
  "load_index h path = load_index_loop h path (resolve_extensions h)"

definition py_or :: "string option \<times> fs_event list \<Rightarrow> (string option \<times> fs_event list)
    \<Rightarrow> string option \<times> fs_event list" where
  \<comment> \<open>\<open>a or b\<close> over two probing calls: \<open>b\<close> is evaluated only when \<open>a\<close> is falsy\<close>
  "py_or a b = (if truthy (fst a) then a else (fst b, snd a @ snd b))"

definition load_as_directory :: "host \<Rightarrow> string \<Rightarrow> (py_error + string option) \<times> fs_event list" where
  "load_as_directory h path =
     (case returnIfFile h (Some path) (Some ''package.json'') of (package_path, t) \<Rightarrow>
        if truthy package_path then
          (case package_path of
             None \<Rightarrow> (Inr None, t)
           | Some pp \<Rightarrow>
              (case json_load h pp of
                 OpenFails \<Rightarrow> (Inl OSError, t @ [Read pp])
               | NotJson \<Rightarrow> (Inl ManifestParseError, t @ [Read pp])
               | Json (JObject package_json) \<Rightarrow>
                   (case (case package_json ''main'' of Some v \<Rightarrow> v | None \<Rightarrow> JString ''index.js'') of
                      JString main \<Rightarrow>
                        let main_path = os_join path [main];
                            r = py_or (load_as_file h main_path) (load_index h main_path)
                        in (Inr (fst r), t @ [Read pp] @ snd r)
                    | _ \<Rightarrow> (Inl TypeError, t @ [Read pp]))
               | Json _ \<Rightarrow> (Inl AttributeError, t @ [Read pp])))
        else (case load_index h path of (r, t') \<Rightarrow> (Inr r, t @ t')))"

fun load_node_modules_loop :: "host \<Rightarrow> string \<Rightarrow> string list \<Rightarrow> (py_error + string option) \<times> fs_event list" where
  \<comment> \<open>the \<open>for dir in dirs\<close> loop of \<open>load_node_modules\<close>\<close>
  "load_node_modules_loop h module [] = (Inr None, [])"
| "load_node_modules_loop h module (dir # dirs) =
     (let path = os_join dir [module] in
      case load_as_file h path of (f, t1) \<Rightarrow>
        if truthy f then (Inr f, t1)
        else (case load_as_directory h path of
                (Inl e, t2) \<Rightarrow> (Inl e, t1 @ t2)
              | (Inr d, t2) \<Rightarrow>
                  if truthy d then (Inr d, t1 @ t2)
                  else (case load_node_modules_loop h module dirs of (r, t3) \<Rightarrow> (r, t1 @ t2 @ t3))))"

fun node_modules_loop :: "host \<Rightarrow> string list \<Rightarrow> nat \<Rightarrow> string list \<Rightarrow> string list" where
  \<comment> \<open>the \<open>while i >= 0\<close> loop of \<open>node_modules_paths\<close>; the counter is \<open>i + 1\<close>\<close>
  "node_modules_loop h parts 0 dirs = dirs"
| "node_modules_loop h parts (Suc i) dirs =
     (if is_node_modules h (parts ! i) then node_modules_loop h parts i dirs
      else
        let parts' = take (i + 1) parts @ [''node_modules''];
            dir = os_join_star parts'
        in node_modules_loop h parts i (dirs @ [dir]))"

definition node_modules_paths :: "host \<Rightarrow> string \<Rightarrow> string list" where
  "node_modules_paths h start =
     (let parts = split_path start in node_modules_loop h parts (length parts) [])"

definition load_node_modules :: "host \<Rightarrow> string \<Rightarrow> string \<Rightarrow> (py_error + string option) \<times> fs_event list" where
  "load_node_modules h module start =
     load_node_modules_loop h module (node_modules_paths h start)"

definition CORE_MODULES :: "string list" where
  "CORE_MODULES =
     [''assert'', ''buffer'', ''child_process'', ''cluster'', ''crypto'', ''dgram'', ''dns'',
      ''domain'', ''events'', ''fs'', ''http'', ''https'', ''net'', ''os'', ''path'',
      ''punycode'', ''querystring'', ''readline'', ''repl'', ''stream'', ''string_decoder'',
      ''tls'', ''tty'', ''url'', ''util'', ''v8'', ''vm'', ''zlib'']"

definition find_require_module :: "host \<Rightarrow> string \<Rightarrow> string \<Rightarrow> (py_error + string option) \<times> fs_event list" where
  "find_require_module h module file_path =
     (if module \<in> set CORE_MODULES then (Inr (Some module), [])
      else if startswith module ''.'' then
        (let path = normpath (os_join file_path [module]) in
         case load_as_file h path of (f, t1) \<Rightarrow>
           if truthy f then (Inr f, t1)
           else (case load_as_directory h path of (r, t2) \<Rightarrow> (r, t1 @ t2)))
      else load_node_modules h module file_path)"

fun find_import_inner :: "host \<Rightarrow> string \<Rightarrow> string \<Rightarrow> string \<Rightarrow> string list \<Rightarrow> string option \<times> fs_event list" where
  \<comment> \<open>the \<open>for extension in webpack_extensions\<close> loop, for one alias root\<close>
  "find_import_inner h module project_path root [] = (None, [])"
| "find_import_inner h module project_path root (extension # rest) =
     (let folder_path = os_join project_path [root];
          file = py_or (returnIfFile h (Some (os_join folder_path [module])) None)
                   (py_or (returnIfFile h (Some (os_join folder_path [module @ extension])) None)
                          (returnIfFile h (Some (os_join folder_path [module, ''index'' @ extension])) None))
      in if truthy (fst file) then file
         else (case find_import_inner h module project_path root rest of (r, t) \<Rightarrow> (r, snd file @ t)))"

fun find_import_outer :: "host \<Rightarrow> string \<Rightarrow> string \<Rightarrow> string list \<Rightarrow> string list \<Rightarrow> string option \<times> fs_event list" where
  \<comment> \<open>the \<open>for root in webpack_modules\<close> loop\<close>
  "find_import_outer h module project_path [] webpack_extensions = (None, [])"
| "find_import_outer h module project_path (root # roots) webpack_extensions =
     (case find_import_inner h module project_path root webpack_extensions of (file, t) \<Rightarrow>
        if truthy file then (file, t)
        else (case find_import_outer h module project_path roots webpack_extensions of
                (r, t') \<Rightarrow> (r, t @ t')))"

definition find_import_module :: "host \<Rightarrow> string \<Rightarrow> string \<Rightarrow> string list option \<Rightarrow> string list
    \<Rightarrow> string option \<times> fs_event list" where
  "find_import_module h module project_path webpack_modules webpack_extensions =
     (case webpack_modules of
        None \<Rightarrow> (None, [])
      | Some [] \<Rightarrow> (None, [])
      | Some roots \<Rightarrow> find_import_outer h module project_path roots webpack_extensions)"

record window =
  extract_variables :: "string \<Rightarrow> string option"
  webpack_resolve_modules :: "string list option"
  webpack_resolve_extensions :: "string list option"

definition find_module :: "host \<Rightarrow> window \<Rightarrow> string \<Rightarrow> (py_error + string option) \<times> fs_event list" where
  "find_module h w module =
     (case extract_variables w ''file_path'' of
        None \<Rightarrow> (Inl (KeyError ''file_path''), [])
      | Some file_path \<Rightarrow>
         (case find_require_module h module file_path of
            (Inl e, t1) \<Rightarrow> (Inl e, t1)
          | (Inr match, t1) \<Rightarrow>
              (case (if \<not> truthy match then (True, []) 
                     else (case returnIfFile h match None of (r, t) \<Rightarrow> (\<not> truthy r, t))) of
                 (fallback, t2) \<Rightarrow>
                   if fallback then
                     (case extract_variables w ''project_path'' of
                        None \<Rightarrow> (Inl (KeyError ''project_path''), t1 @ t2)
                      | Some project_path \<Rightarrow>
                          let webpack_modules = webpack_resolve_modules w;
                              webpack_extensions =
                                (case webpack_resolve_extensions w of
                                   None \<Rightarrow> resolve_extensions h
                                 | Some [] \<Rightarrow> resolve_extensions h
                                 | Some es \<Rightarrow> es)
                          in (case find_import_module h module project_path webpack_modules
                                     webpack_extensions of
                                (match', t3) \<Rightarrow>
                                  (case returnIfFile h match' None of
                                     (r, t4) \<Rightarrow> (Inr r, t1 @ t2 @ t3 @ t4))))
                   else (case returnIfFile h match None of
                           (r, t4) \<Rightarrow> (Inr r, t1 @ t2 @ t4)))))"

section \<open>Vocabulary of the statements\<close>

definition probe_target :: "string \<Rightarrow> string option \<Rightarrow> string" where
  \<comment> \<open>the path \<open>returnIfFile\<close> examines: the path itself, or joined with a non-empty sub-path\<close>
  "probe_target p file =
     (case file of None \<Rightarrow> p | Some f \<Rightarrow> if f = [] then p else os_join p [f])"

fun probes_until :: "host \<Rightarrow> string list \<Rightarrow> fs_event list" where
  \<comment> \<open>probing candidates in order, up to and including the first that is a file\<close>
  "probes_until h [] = []"
| "probes_until h (c # cs) = Probe c # (if isfile h c then [] else probes_until h cs)"

definition first_file :: "host \<Rightarrow> string list \<Rightarrow> string option \<times> fs_event list" where
  \<comment> \<open>the first candidate that is a file, with the probes this takes; an empty candidate
      is passed over without a probe, as \<open>returnIfFile\<close> does\<close>
  "first_file h cands =
     (List.find (isfile h) (filter (\<lambda>c. c \<noteq> []) cands),
      probes_until h (filter (\<lambda>c. c \<noteq> []) cands))"

definition host_of :: "string list \<Rightarrow> (string \<Rightarrow> file_read) \<Rightarrow> string list \<Rightarrow> host" where
  \<comment> \<open>a CPython host whose regular files are the listed paths\<close>
  "host_of files manifests exts =
     \<lparr>isfile = (\<lambda>p. p \<in> set files), json_load = manifests, resolve_extensions = exts,
      is_node_modules = cpython_is\<rparr>"

definition entry_candidates :: "host \<Rightarrow> string \<Rightarrow> string list" where
  \<comment> \<open>what is tried for a manifest entry path: the entry, the entry with each extension,
      then the index files of the entry taken as a directory\<close>
  "entry_candidates h m =
     (m # map ((@) m) (resolve_extensions h))
       @ map (\<lambda>e. os_join m [''index'' @ e]) (resolve_extensions h)"

definition manifest_host :: host where
  "manifest_host =
     host_of [''/p/dir/package.json'', ''/p/dir/lib/entry.js'', ''/p/dir/index.js'']
       (\<lambda>p. Json (JObject [''main'' \<mapsto> JString ''lib/entry.js''])) [''.js'']"

definition broken_host :: host where
  "broken_host = host_of [''/p/dir/package.json'', ''/p/dir/index.js''] (\<lambda>p. NotJson) [''.js'']"

definition segment :: "string \<Rightarrow> bool" where
  \<comment> \<open>a path segment: not empty, no separator in it\<close>
  "segment c \<longleftrightarrow> c \<noteq> [] \<and> sep \<notin> set c"

definition reduced :: "nat \<Rightarrow> string list \<Rightarrow> bool" where
  \<comment> \<open>component lists that \<open>normpath\<close> leaves alone: no empty or \<open>.\<close> component, and
      \<open>..\<close> only as a leading run of a relative path\<close>
  "reduced k cs \<longleftrightarrow>
     (\<forall>c\<in>set cs. segment c \<and> c \<noteq> ''.'') \<and>
     (if k = 0 then ''..'' \<notin> set (dropWhile (\<lambda>c. c = ''..'') cs) else ''..'' \<notin> set cs)"

definition norm_comps :: "string \<Rightarrow> string list" where
  \<comment> \<open>the components \<open>normpath\<close> keeps\<close>
  "norm_comps P = foldl (norm_step (initial_slashes_of P)) [] (str_split sep P)"

definition rooted :: "nat \<Rightarrow> string list \<Rightarrow> string" where
  \<comment> \<open>\<open>k\<close> leading separators followed by the segments joined with the separator\<close>
  "rooted k cs = replicate k sep @ str_join [sep] cs"

definition candidate_dir :: "string list \<Rightarrow> nat \<Rightarrow> string" where
  \<comment> \<open>the \<open>node_modules\<close> directory beside segment \<open>i\<close>: the first \<open>i + 1\<close> segments joined,
      then \<open>node_modules\<close>\<close>
  "candidate_dir parts i = os_join_star (take (Suc i) parts @ [''node_modules''])"

definition resolve_candidate :: "host \<Rightarrow> string \<Rightarrow> (py_error + string option) \<times> fs_event list" where
  \<comment> \<open>\<open>load_as_file(path) or load_as_directory(path)\<close>, as both callers write it\<close>
  "resolve_candidate h path =
     (case load_as_file h path of (f, t1) \<Rightarrow>
        if truthy f then (Inr f, t1)
        else (case load_as_directory h path of (r, t2) \<Rightarrow> (r, t1 @ t2)))"

definition nested_host :: host where
  "nested_host =
     host_of [''a/b/node_modules/pkg/index.js'', ''a/node_modules/pkg/index.js'']
       (\<lambda>p. NotJson) [''.js'']"

definition alias_candidates :: "string \<Rightarrow> string \<Rightarrow> string list \<Rightarrow> string list \<Rightarrow> string list" where
  \<comment> \<open>what the alias search probes: per root, per extension, the exact path, the path with
      the extension, the index file with the extension\<close>
  "alias_candidates module project_path roots exts =
     concat (map (\<lambda>root.
       concat (map (\<lambda>e.
         [os_join (os_join project_path [root]) [module],
          os_join (os_join project_path [root]) [module @ e],
          os_join (os_join project_path [root]) [module, ''index'' @ e]]) exts)) roots)"

definition alias_roots :: "window \<Rightarrow> string list" where
  \<comment> \<open>the configured alias roots; none when the setting is absent\<close>
  "alias_roots w = (case webpack_resolve_modules w of None \<Rightarrow> [] | Some roots \<Rightarrow> roots)"

definition alias_extensions :: "host \<Rightarrow> window \<Rightarrow> string list" where
  \<comment> \<open>\<open>webpack_resolve_extensions or resolve_extensions\<close>\<close>
  "alias_extensions h w =
     (case webpack_resolve_extensions w of
        None \<Rightarrow> resolve_extensions h
      | Some [] \<Rightarrow> resolve_extensions h
      | Some es \<Rightarrow> es)"

definition alias_host :: host where
  "alias_host =
     host_of [''/p/a/x.js'', ''/p/src/fs.js'', ''/p/src/widgets/index.js''] (\<lambda>p. NotJson) [''.js'']"

definition primary_probes :: "fs_event list" where
  \<comment> \<open>the probes of the \<open>node_modules\<close> search for \<open>widgets\<close> from \<open>/p/a\<close>\<close>
  "primary_probes =
     [Probe ''/p/a/node_modules/widgets'', Probe ''/p/a/node_modules/widgets.js'',
      Probe ''/p/a/node_modules/widgets/package.json'',
      Probe ''/p/a/node_modules/widgets/index.js'',
      Probe ''/p/node_modules/widgets'', Probe ''/p/node_modules/widgets.js'',
      Probe ''/p/node_modules/widgets/package.json'', Probe ''/p/node_modules/widgets/index.js'',
      Probe ''/node_modules/widgets'', Probe ''/node_modules/widgets.js'',
      Probe ''/node_modules/widgets/package.json'', Probe ''/node_modules/widgets/index.js'']"

definition alias_window :: window where
  "alias_window =
     \<lparr>extract_variables = [''file_path'' \<mapsto> ''/p/a'', ''project_path'' \<mapsto> ''/p''],
      webpack_resolve_modules = Some [''src''],
      webpack_resolve_extensions = None\<rparr>"

definition isabs :: "string \<Rightarrow> bool" where
  \<comment> \<open>\<open>os.path.isabs\<close>\<close>
  "isabs p = startswith p [sep]"

definition rooted_host :: host where
  "rooted_host = host_of [''/y''] (\<lambda>p. NotJson) [''.js'']"

section \<open>The Windows flavour of \<open>os.path\<close>\<close>

























section \<open>Probing one path\<close>

lemma startswith_sep_nonempty: "startswith b [sep] \<Longrightarrow> b \<noteq> []"
  by (auto simp: startswith_def)

lemma join_step_nonempty: "path \<noteq> [] \<Longrightarrow> join_step path b \<noteq> []"
  by (auto simp: join_step_def dest: startswith_sep_nonempty)

lemma os_join_nonempty: "a \<noteq> [] \<Longrightarrow> os_join a p \<noteq> []"
  unfolding os_join_def
  by (induction p arbitrary: a) (simp_all add: join_step_nonempty)

lemma probe_target_nonempty: "p \<noteq> [] \<Longrightarrow> probe_target p file \<noteq> []"
  by (auto simp: probe_target_def os_join_nonempty split: option.splits)

lemma returnIfFile_falsy: "\<not> truthy path \<Longrightarrow> returnIfFile h path file = (None, [])"
  by (simp add: returnIfFile_def)

lemma returnIfFile_probe:
  "p \<noteq> [] \<Longrightarrow> returnIfFile h (Some p) file =
     ((if isfile h (probe_target p file) then Some (probe_target p file) else None),
      [Probe (probe_target p file)])"
  by (auto simp: returnIfFile_def truthy_def probe_target_def Let_def split: option.splits)

lemma returnIfFile_truthy:
  "truthy (fst (returnIfFile h path file)) = (fst (returnIfFile h path file) \<noteq> None)"
proof (cases "truthy path")
  case False
  then show ?thesis by (simp add: returnIfFile_falsy truthy_def)
next
  case True
  then obtain p where p: "path = Some p" "p \<noteq> []"
    by (auto simp: truthy_def split: option.splits)
  then show ?thesis
    by (simp add: returnIfFile_probe truthy_def probe_target_nonempty)
qed

lemma first_file_Nil: "first_file h [] = (None, [])"
  by (simp add: first_file_def)

lemma first_file_Cons:
  "first_file h (c # cs) =
     (if c \<noteq> [] \<and> isfile h c then (Some c, [Probe c])
      else (fst (first_file h cs), (if c = [] then [] else [Probe c]) @ snd (first_file h cs)))"
  by (simp add: first_file_def)

lemma returnIfFile_plain: "returnIfFile h (Some c) None = first_file h [c]"
  by (cases "c = []")
     (simp_all add: returnIfFile_falsy truthy_def returnIfFile_probe probe_target_def
        first_file_Cons first_file_Nil)

lemma first_file_truthy: "truthy (fst (first_file h cs)) = (fst (first_file h cs) \<noteq> None)"
  by (induction cs) (simp_all add: first_file_Cons first_file_Nil truthy_def)

lemma first_file_append:
  "first_file h (xs @ ys) =
     (if fst (first_file h xs) \<noteq> None then first_file h xs
      else (fst (first_file h ys), snd (first_file h xs) @ snd (first_file h ys)))"
  by (induction xs) (simp_all add: first_file_Cons first_file_Nil)

lemma py_or_first_file: "py_or (first_file h xs) (first_file h ys) = first_file h (xs @ ys)"
  by (simp add: py_or_def first_file_truthy first_file_append)

lemma returnIfFile_if:
  "returnIfFile h (Some c) None =
     (if c \<noteq> [] \<and> isfile h c then Some c else None, if c = [] then [] else [Probe c])"
  by (simp add: returnIfFile_plain first_file_Cons first_file_Nil)

lemma load_as_file_loop_eq:
  "load_as_file_loop h path es = first_file h (map ((@) path) es)"
proof (induction es)
  case Nil
  then show ?case by (simp add: first_file_Nil)
next
  case (Cons e es)
  let ?c = "path @ e"
  have step: "load_as_file_loop h path (e # es) =
      (if ?c \<noteq> [] \<and> isfile h ?c then (Some ?c, [Probe ?c])
       else (fst (load_as_file_loop h path es),
             (if ?c = [] then [] else [Probe ?c]) @ snd (load_as_file_loop h path es)))"
    by (simp add: returnIfFile_if truthy_def split: prod.splits)
  show ?case
    unfolding step Cons by (simp only: list.map first_file_Cons)
qed

lemma load_as_file_eq:
  "load_as_file h path = first_file h (path # map ((@) path) (resolve_extensions h))"
proof -
  have step: "load_as_file h path =
      (if path \<noteq> [] \<and> isfile h path then (Some path, [Probe path])
       else (fst (load_as_file_loop h path (resolve_extensions h)),
             (if path = [] then [] else [Probe path])
               @ snd (load_as_file_loop h path (resolve_extensions h))))"
    by (simp add: load_as_file_def returnIfFile_if truthy_def split: prod.splits)
  show ?thesis
    unfolding step load_as_file_loop_eq by (simp only: first_file_Cons)
qed

text \<open>
  Claim C10. \<open>returnIfFile\<close> is total: for \<open>None\<close> or an empty path it returns \<open>None\<close> and
  touches no file; for a non-empty path it makes exactly one probe, of the path (joined with
  the sub-path when one is given), and returns that path when it is a regular file and
  \<open>None\<close> otherwise. Its result type has no error: it never raises.
\<close>

theorem returnIfFile_total:
  "returnIfFile h None file = (None, []) \<and>
   returnIfFile h (Some []) file = (None, []) \<and>
   (p \<noteq> [] \<longrightarrow>
      returnIfFile h (Some p) file =
        ((if isfile h (probe_target p file) then Some (probe_target p file) else None),
         [Probe (probe_target p file)]))"
  by (simp add: returnIfFile_falsy truthy_def returnIfFile_probe)

theorem returnIfFile_total_witness:
  "''/d'' \<noteq> [] \<and>
   returnIfFile (host_of [''/d/package.json''] (\<lambda>p. NotJson) [''.js''])
       (Some ''/d'') (Some ''package.json'')
     = (Some ''/d/package.json'', [Probe ''/d/package.json'']) \<and>
   returnIfFile (host_of [''/d/package.json''] (\<lambda>p. NotJson) [''.js''])
       (Some ''/d'') (Some ''index.js'')
     = (None, [Probe ''/d/index.js''])"
  using
    returnIfFile_total [of "host_of [''/d/package.json''] (\<lambda>p. NotJson) [''.js'']"
      "Some ''package.json''" "''/d''"]
    returnIfFile_total [of "host_of [''/d/package.json''] (\<lambda>p. NotJson) [''.js'']"
      "Some ''index.js''" "''/d''"]
  by (simp add: host_of_def probe_target_def os_join_def join_step_def startswith_def
      endswith_def sep_def)

section \<open>Resolving a file\<close>

text \<open>
  Claim C4. \<open>load_as_file\<close> tries the path as it is and then the path with each configured
  extension appended, in the configured order, and stops at the first regular file. So a
  path that is itself a file is returned after a single probe, whatever files with an
  extension exist beside it.
\<close>

theorem load_as_file_exact_first:
  "load_as_file h path = first_file h (path # map ((@) path) (resolve_extensions h)) \<and>
   (path \<noteq> [] \<and> isfile h path \<longrightarrow> load_as_file h path = (Some path, [Probe path]))"
  by (simp add: load_as_file_eq first_file_Cons)

theorem load_as_file_exact_first_witness:
  "(''/d/foo'' \<noteq> [] \<and>
    isfile (host_of [''/d/foo'', ''/d/foo.js''] (\<lambda>p. NotJson) [''.js'']) ''/d/foo'' \<and>
    load_as_file (host_of [''/d/foo'', ''/d/foo.js''] (\<lambda>p. NotJson) [''.js'']) ''/d/foo''
      = (Some ''/d/foo'', [Probe ''/d/foo''])) \<and>
   find_require_module (host_of [''/d/foo'', ''/d/foo.js''] (\<lambda>p. NotJson) [''.js''])
       ''./foo'' ''/d''
     = (Inr (Some ''/d/foo''), [Probe ''/d/foo''])"
proof -
  have a: "''/d/foo'' \<noteq> [] \<and>
    isfile (host_of [''/d/foo'', ''/d/foo.js''] (\<lambda>p. NotJson) [''.js'']) ''/d/foo'' \<and>
    load_as_file (host_of [''/d/foo'', ''/d/foo.js''] (\<lambda>p. NotJson) [''.js'']) ''/d/foo''
      = (Some ''/d/foo'', [Probe ''/d/foo''])"
    using load_as_file_exact_first
      [of "host_of [''/d/foo'', ''/d/foo.js''] (\<lambda>p. NotJson) [''.js'']" "''/d/foo''"]
    by (simp add: host_of_def first_file_Cons first_file_Nil)
  have b: "find_require_module (host_of [''/d/foo'', ''/d/foo.js''] (\<lambda>p. NotJson) [''.js''])
       ''./foo'' ''/d''
     = (Inr (Some ''/d/foo''), [Probe ''/d/foo''])"
    by code_simp
  show ?thesis
    by (rule conjI [OF a b])
qed

section \<open>Resolving a directory\<close>

lemma returnIfFile_sub:
  "path \<noteq> [] \<Longrightarrow> f \<noteq> [] \<Longrightarrow>
   returnIfFile h (Some path) (Some f) = first_file h [os_join path [f]]"
  by (simp add: returnIfFile_probe probe_target_def first_file_Cons first_file_Nil os_join_nonempty)

lemma load_index_loop_eq:
  assumes "path \<noteq> []"
  shows "load_index_loop h path es = first_file h (map (\<lambda>e. os_join path [''index'' @ e]) es)"
proof (induction es)
  case Nil
  then show ?case by (simp add: first_file_Nil)
next
  case (Cons e es)
  let ?c = "os_join path [''index'' @ e]"
  have c: "?c \<noteq> []"
    using assms by (rule os_join_nonempty)
  have step: "load_index_loop h path (e # es) =
      (if isfile h ?c then (Some ?c, [Probe ?c])
       else (fst (load_index_loop h path es), [Probe ?c] @ snd (load_index_loop h path es)))"
    using assms c
    by (simp add: returnIfFile_sub first_file_Cons first_file_Nil truthy_def split: prod.splits)
  show ?case
    unfolding step Cons using c by (simp only: list.map first_file_Cons if_False simp_thms)
qed

lemma load_index_eq:
  "path \<noteq> [] \<Longrightarrow>
   load_index h path = first_file h (map (\<lambda>e. os_join path [''index'' @ e]) (resolve_extensions h))"
  by (simp add: load_index_def load_index_loop_eq)

lemma load_index_loop_empty: "load_index_loop h [] es = (None, [])"
  by (induction es) (simp_all add: returnIfFile_falsy truthy_def)

lemma load_as_directory_empty: "load_as_directory h [] = (Inr None, [])"
  by (simp add: load_as_directory_def returnIfFile_falsy truthy_def load_index_def load_index_loop_empty)

lemma load_as_directory_no_manifest:
  assumes "path \<noteq> []" and "\<not> isfile h (os_join path [''package.json''])"
  shows "load_as_directory h path =
           (Inr (fst (load_index h path)),
            Probe (os_join path [''package.json'']) # snd (load_index h path))"
  using assms
  by (simp add: load_as_directory_def returnIfFile_sub first_file_Cons first_file_Nil
      os_join_nonempty truthy_def split: prod.splits)

lemma load_as_directory_manifest:
  assumes "path \<noteq> []" and "isfile h (os_join path [''package.json''])"
  shows "load_as_directory h path =
     (case json_load h (os_join path [''package.json'']) of
        OpenFails \<Rightarrow> (Inl OSError, [Probe (os_join path [''package.json'']), Read (os_join path [''package.json''])])
      | NotJson \<Rightarrow> (Inl ManifestParseError, [Probe (os_join path [''package.json'']), Read (os_join path [''package.json''])])
      | Json (JObject package_json) \<Rightarrow>
          (case (case package_json ''main'' of Some v \<Rightarrow> v | None \<Rightarrow> JString ''index.js'') of
             JString main \<Rightarrow>
               (Inr (fst (py_or (load_as_file h (os_join path [main])) (load_index h (os_join path [main])))),
                [Probe (os_join path [''package.json'']), Read (os_join path [''package.json''])]
                  @ snd (py_or (load_as_file h (os_join path [main])) (load_index h (os_join path [main]))))
           | _ \<Rightarrow> (Inl TypeError, [Probe (os_join path [''package.json'']), Read (os_join path [''package.json''])]))
      | Json _ \<Rightarrow> (Inl AttributeError, [Probe (os_join path [''package.json'']), Read (os_join path [''package.json''])]))"
  using assms
  by (simp add: load_as_directory_def returnIfFile_sub first_file_Cons first_file_Nil
      os_join_nonempty truthy_def Let_def split: prod.splits file_read.splits json.splits option.splits)

lemma os_join_eval:
  "os_join ''/p/dir'' [''package.json''] = ''/p/dir/package.json''"
  "os_join ''/p/dir'' [''lib/entry.js''] = ''/p/dir/lib/entry.js''"
  "os_join ''/p/dir'' [''index.js''] = ''/p/dir/index.js''"
  by code_simp+

lemma entry_search:
  assumes "m \<noteq> []"
  shows "py_or (load_as_file h m) (load_index h m) = first_file h (entry_candidates h m)"
  using assms
  by (simp add: load_as_file_eq load_index_eq py_or_first_file entry_candidates_def)

text \<open>
  Claim C2. When \<open>package.json\<close> exists in the directory and its contents are not valid
  JSON, \<open>load_as_directory\<close> ends with the error of \<open>json.load\<close> (\<open>ManifestParseError\<close>),
  which is neither the not-found result \<open>Inr None\<close> nor a path. When \<open>package.json\<close> does not
  exist, it reads nothing and returns what \<open>load_index\<close> returns, without error.
\<close>

theorem load_as_directory_malformed_manifest:
  "path \<noteq> [] \<longrightarrow>
     (isfile h (os_join path [''package.json'']) \<and>
      json_load h (os_join path [''package.json'']) = NotJson \<longrightarrow>
        load_as_directory h path =
          (Inl ManifestParseError,
           [Probe (os_join path [''package.json'']), Read (os_join path [''package.json''])])) \<and>
     (\<not> isfile h (os_join path [''package.json'']) \<longrightarrow>
        load_as_directory h path =
          (Inr (fst (load_index h path)),
           Probe (os_join path [''package.json'']) # snd (load_index h path)))"
  by (simp add: load_as_directory_manifest load_as_directory_no_manifest)

theorem load_as_directory_malformed_manifest_witness:
  "(''/p/dir'' \<noteq> [] \<and>
    isfile broken_host (os_join ''/p/dir'' [''package.json'']) \<and>
    json_load broken_host (os_join ''/p/dir'' [''package.json'']) = NotJson \<and>
    load_as_directory broken_host ''/p/dir''
      = (Inl ManifestParseError, [Probe ''/p/dir/package.json'', Read ''/p/dir/package.json''])) \<and>
   (''/p/dir'' \<noteq> [] \<and>
    \<not> isfile (host_of [''/p/dir/index.js''] (\<lambda>p. NotJson) [''.js''])
         (os_join ''/p/dir'' [''package.json'']) \<and>
    load_as_directory (host_of [''/p/dir/index.js''] (\<lambda>p. NotJson) [''.js'']) ''/p/dir''
      = (Inr (Some ''/p/dir/index.js''), [Probe ''/p/dir/package.json'', Probe ''/p/dir/index.js'']))"
proof -
  have a: "isfile broken_host (os_join ''/p/dir'' [''package.json''])"
    by (simp add: os_join_eval broken_host_def host_of_def)
  have b: "json_load broken_host (os_join ''/p/dir'' [''package.json'']) = NotJson"
    by (simp add: broken_host_def host_of_def)
  have c: "\<not> isfile (host_of [''/p/dir/index.js''] (\<lambda>p. NotJson) [''.js''])
         (os_join ''/p/dir'' [''package.json''])"
    by (simp add: os_join_eval host_of_def)
  have d: "load_index (host_of [''/p/dir/index.js''] (\<lambda>p. NotJson) [''.js'']) ''/p/dir''
      = (Some ''/p/dir/index.js'', [Probe ''/p/dir/index.js''])"
    by (simp add: load_index_eq first_file_Cons first_file_Nil os_join_eval host_of_def)
  show ?thesis
    using a b c load_as_directory_malformed_manifest [of "''/p/dir''" broken_host]
      load_as_directory_malformed_manifest
        [of "''/p/dir''" "host_of [''/p/dir/index.js''] (\<lambda>p. NotJson) [''.js'']"]
    by (simp add: d os_join_eval)
qed

text \<open>
  Claim C5. With a manifest whose \<open>main\<close> is a string, \<open>load_as_directory\<close> searches only
  the entry path: the entry, the entry with each extension, and last the index files of the
  entry taken as a directory. The index files of the directory itself are not among the
  candidates, so an existing entry file is returned whether or not the directory has an
  \<open>index.js\<close>.
\<close>

theorem load_as_directory_main_precedence:
  assumes "path \<noteq> []"
    and "isfile h (os_join path [''package.json''])"
    and "json_load h (os_join path [''package.json'']) = Json (JObject package_json)"
    and "package_json ''main'' = Some (JString main)"
  shows "load_as_directory h path =
           (Inr (fst (first_file h (entry_candidates h (os_join path [main])))),
            [Probe (os_join path [''package.json'']), Read (os_join path [''package.json''])]
              @ snd (first_file h (entry_candidates h (os_join path [main])))) \<and>
         (isfile h (os_join path [main]) \<longrightarrow>
            load_as_directory h path =
              (Inr (Some (os_join path [main])),
               [Probe (os_join path [''package.json'']), Read (os_join path [''package.json'']),
                Probe (os_join path [main])]))"
proof -
  have m: "os_join path [main] \<noteq> []"
    using assms(1) by (rule os_join_nonempty)
  have first: "load_as_directory h path =
           (Inr (fst (first_file h (entry_candidates h (os_join path [main])))),
            [Probe (os_join path [''package.json'']), Read (os_join path [''package.json''])]
              @ snd (first_file h (entry_candidates h (os_join path [main]))))"
    using assms by (simp add: load_as_directory_manifest entry_search [OF m])
  have "isfile h (os_join path [main]) \<Longrightarrow>
      first_file h (entry_candidates h (os_join path [main]))
        = (Some (os_join path [main]), [Probe (os_join path [main])])"
    using m by (simp add: entry_candidates_def first_file_Cons)
  with first show ?thesis
    by simp
qed

theorem load_as_directory_main_precedence_witness:
  "(''/p/dir'' \<noteq> [] \<and>
    isfile manifest_host (os_join ''/p/dir'' [''package.json'']) \<and>
    json_load manifest_host (os_join ''/p/dir'' [''package.json''])
      = Json (JObject [''main'' \<mapsto> JString ''lib/entry.js'']) \<and>
    [''main'' \<mapsto> JString ''lib/entry.js''] ''main'' = Some (JString ''lib/entry.js'') \<and>
    isfile manifest_host ''/p/dir/index.js'' \<and>
    load_as_directory manifest_host ''/p/dir''
      = (Inr (Some ''/p/dir/lib/entry.js''),
         [Probe ''/p/dir/package.json'', Read ''/p/dir/package.json'',
          Probe ''/p/dir/lib/entry.js'']))"
proof -
  have a: "isfile manifest_host (os_join ''/p/dir'' [''package.json''])"
    by (simp add: os_join_eval manifest_host_def host_of_def)
  have b: "json_load manifest_host (os_join ''/p/dir'' [''package.json''])
      = Json (JObject [''main'' \<mapsto> JString ''lib/entry.js''])"
    by (simp add: manifest_host_def host_of_def)
  have c: "[''main'' \<mapsto> JString ''lib/entry.js''] ''main'' = Some (JString ''lib/entry.js'')"
    by simp
  have d: "isfile manifest_host (os_join ''/p/dir'' [''lib/entry.js''])"
    by (simp add: os_join_eval manifest_host_def host_of_def)
  have e: "isfile manifest_host ''/p/dir/index.js''"
    by (simp add: manifest_host_def host_of_def)
  have f: "''/p/dir'' \<noteq> []"
    by simp
  note r = load_as_directory_main_precedence [OF f a b c, THEN conjunct2, rule_format, OF d]
  show ?thesis
    using a b c e r by (simp add: os_join_eval)
qed

section \<open>Normalised paths, their segments, and joining them back\<close>

lemma str_split_nosep: "c \<notin> set x \<Longrightarrow> str_split c x = [x]"
  by (induction x) auto

lemma str_split_append: "c \<notin> set x \<Longrightarrow> str_split c (x @ c # r) = x # str_split c r"
  by (induction x) auto

lemma str_split_seps: "str_split c (replicate k c @ s) = replicate k [] @ str_split c s"
  by (induction k) auto

lemma str_split_parts: "\<forall>x\<in>set (str_split c s). c \<notin> set x"
  by (induction s) (auto split: list.splits)

lemma str_join_Cons: "xs \<noteq> [] \<Longrightarrow> str_join s (x # xs) = x @ s @ str_join s xs"
  by (cases xs) auto

lemma str_join_snoc: "xs \<noteq> [] \<Longrightarrow> str_join s (xs @ [x]) = str_join s xs @ s @ x"
  by (induction s xs rule: str_join.induct) auto

lemma str_split_join:
  "xs \<noteq> [] \<Longrightarrow> \<forall>x\<in>set xs. c \<notin> set x \<Longrightarrow> str_split c (str_join [c] xs) = xs"
proof (induction xs)
  case Nil
  then show ?case by simp
next
  case (Cons x xs)
  show ?case
  proof (cases xs)
    case Nil
    with Cons.prems show ?thesis by (simp add: str_split_nosep)
  next
    case (Cons y ys)
    with Cons.prems Cons.IH show ?thesis
      by (simp add: str_split_append)
  qed
qed

lemma dropWhile_butlast_subset: "set (dropWhile P (butlast xs)) \<subseteq> set (dropWhile P xs)"
  by (induction xs) (auto dest: in_set_butlastD)

lemma dropWhile_last_out:
  assumes "xs \<noteq> []" and "P (last xs)" and "\<forall>x\<in>set (dropWhile P xs). \<not> P x"
  shows "dropWhile P xs = []"
proof (rule ccontr)
  assume ne: "dropWhile P xs \<noteq> []"
  have "last (dropWhile P xs) = last xs"
    using ne by (metis last_appendR takeWhile_dropWhile_id)
  with ne assms show False
    by (metis last_in_set)
qed

lemma dropWhile_all_before:
  assumes "\<forall>x\<in>set (dropWhile P (acc @ y # ys)). \<not> P x" and "P y"
  shows "\<forall>a\<in>set acc. P a"
proof (rule ccontr)
  assume "\<not> (\<forall>a\<in>set acc. P a)"
  then have "dropWhile P (acc @ y # ys) = dropWhile P acc @ y # ys"
    by (auto simp: dropWhile_append1)
  with assms show False by auto
qed

lemma reduced_Nil: "reduced k []"
  by (simp add: reduced_def)

lemma reduced_butlast: "reduced k acc \<Longrightarrow> reduced k (butlast acc)"
  unfolding reduced_def
  using dropWhile_butlast_subset [of "\<lambda>c. c = ''..''" acc]
  by (auto dest: in_set_butlastD split: if_splits)

lemma reduced_snoc_plain:
  assumes "reduced k acc" and "segment x" and "x \<noteq> ''.''" and "x \<noteq> ''..''"
  shows "reduced k (acc @ [x])"
proof (cases "\<forall>a\<in>set acc. a = ''..''")
  case True
  with assms show ?thesis
    by (auto simp: reduced_def split: if_splits)
next
  case False
  then have "dropWhile (\<lambda>c. c = ''..'') (acc @ [x]) = dropWhile (\<lambda>c. c = ''..'') acc @ [x]"
    by (auto simp: dropWhile_append1)
  with assms show ?thesis
    by (auto simp: reduced_def split: if_splits)
qed

lemma segment_dotdot: "segment ''..''"
  by (simp add: segment_def sep_def)

lemma reduced_snoc_dotdot:
  assumes "reduced 0 acc" and "acc = [] \<or> last acc = ''..''"
  shows "reduced 0 (acc @ [''..''])"
proof -
  have "dropWhile (\<lambda>c. c = ''..'') acc = []"
  proof (cases "acc = []")
    case True
    then show ?thesis by simp
  next
    case False
    with assms show ?thesis
      by (intro dropWhile_last_out) (auto simp: reduced_def)
  qed
  then have "\<forall>a\<in>set acc. a = ''..''"
    by (simp add: dropWhile_eq_Nil_conv)
  with assms(1) show ?thesis
    by (auto simp: reduced_def segment_dotdot)
qed

lemma norm_step_reduced:
  assumes "reduced k acc" and "sep \<notin> set x"
  shows "reduced k (norm_step k acc x)"
proof -
  consider (skip) "x = [] \<or> x = ''.''"
    | (plain) "x \<noteq> []" "x \<noteq> ''.''" "x \<noteq> ''..''"
    | (up) "x = ''..''"
    by blast
  then show ?thesis
  proof cases
    case skip
    with assms show ?thesis by (auto simp: norm_step_def)
  next
    case plain
    with assms have "reduced k (acc @ [x])"
      by (intro reduced_snoc_plain) (auto simp: segment_def)
    with plain show ?thesis by (simp add: norm_step_def)
  next
    case up
    show ?thesis
    proof (cases "(k = 0 \<and> acc = []) \<or> (acc \<noteq> [] \<and> last acc = ''..'')")
      case True
      have k: "k = 0"
      proof (rule ccontr)
        assume "k \<noteq> 0"
        with True assms(1) show False
          by (auto simp: reduced_def dest: last_in_set)
      qed
      with True assms(1) have "reduced 0 (acc @ [''..''])"
        by (intro reduced_snoc_dotdot) auto
      with True up k show ?thesis
        by (auto simp: norm_step_def)
    next
      case False
      with up assms(1) show ?thesis
        by (auto simp: norm_step_def reduced_butlast)
    qed
  qed
qed

lemma foldl_norm_reduced:
  "reduced k acc \<Longrightarrow> \<forall>x\<in>set xs. sep \<notin> set x \<Longrightarrow> reduced k (foldl (norm_step k) acc xs)"
  by (induction xs arbitrary: acc) (simp_all add: norm_step_reduced)

lemma reduced_prefix: "reduced k (acc @ xs) \<Longrightarrow> reduced k acc"
proof (induction xs rule: rev_induct)
  case Nil
  then show ?case by simp
next
  case (snoc x xs)
  from reduced_butlast [OF snoc.prems] have "reduced k (acc @ xs)"
    by (simp add: butlast_append)
  then show ?case by (rule snoc.IH)
qed

lemma norm_step_keep:
  assumes "reduced k (acc @ x # xs)"
  shows "norm_step k acc x = acc @ [x]"
proof -
  from assms have x: "x \<noteq> []" "x \<noteq> ''.''"
    by (simp_all add: reduced_def segment_def)
  show ?thesis
  proof (cases "x = ''..''")
    case False
    with x show ?thesis
      by (simp add: norm_step_def)
  next
    case True
    have k: "k = 0"
    proof (rule ccontr)
      assume "k \<noteq> 0"
      with assms True show False
        by (simp add: reduced_def)
    qed
    from assms k have "''..'' \<notin> set (dropWhile (\<lambda>c. c = ''..'') (acc @ x # xs))"
      by (simp add: reduced_def)
    then have "\<forall>y\<in>set (dropWhile (\<lambda>c. c = ''..'') (acc @ x # xs)). \<not> y = ''..''"
      by blast
    then have "\<forall>a\<in>set acc. a = ''..''"
      using True by (rule dropWhile_all_before)
    then have "acc = [] \<or> last acc = ''..''"
      using last_in_set [of acc] by blast
    then show ?thesis
    proof
      assume "acc = []"
      with True k show ?thesis
        by (simp add: norm_step_def)
    next
      assume l: "last acc = ''..''"
      show ?thesis
      proof (cases "acc = []")
        case True
        with \<open>x = ''..''\<close> k show ?thesis
          by (simp add: norm_step_def)
      next
        case False
        with l \<open>x = ''..''\<close> show ?thesis
          by (simp add: norm_step_def)
      qed
    qed
  qed
qed

lemma foldl_norm_fix:
  "reduced k (acc @ xs) \<Longrightarrow> foldl (norm_step k) acc xs = acc @ xs"
proof (induction xs arbitrary: acc)
  case Nil
  then show ?case by simp
next
  case (Cons x xs)
  have "norm_step k acc x = acc @ [x]"
    using Cons.prems by (rule norm_step_keep)
  moreover have "foldl (norm_step k) (acc @ [x]) xs = (acc @ [x]) @ xs"
    using Cons.prems by (intro Cons.IH) simp
  ultimately show ?case by simp
qed

lemma foldl_norm_skip_empty:
  "foldl (norm_step k) acc (replicate n [] @ xs) = foldl (norm_step k) acc xs"
  by (induction n) (simp_all add: norm_step_def)

lemma foldl_norm_empties: "foldl (norm_step k) acc (replicate n []) = acc"
  by (induction n) (simp_all add: norm_step_def)

lemma normpath_alt:
  "P \<noteq> [] \<Longrightarrow> normpath P =
     (if replicate (initial_slashes_of P) sep @ str_join [sep] (norm_comps P) = [] then ''.''
      else replicate (initial_slashes_of P) sep @ str_join [sep] (norm_comps P))"
  by (simp add: normpath_def norm_comps_def Let_def)

lemma norm_comps_reduced: "reduced (initial_slashes_of P) (norm_comps P)"
  unfolding norm_comps_def
  by (intro foldl_norm_reduced reduced_Nil str_split_parts)

lemma initial_slashes_le: "initial_slashes_of P \<le> 2"
  by (simp add: initial_slashes_of_def)

lemma str_join_segments:
  "cs \<noteq> [] \<Longrightarrow> \<forall>c\<in>set cs. segment c \<Longrightarrow>
     str_join [sep] cs \<noteq> [] \<and> hd (str_join [sep] cs) \<noteq> sep \<and> last (str_join [sep] cs) \<noteq> sep"
proof (induction cs)
  case Nil
  then show ?case by simp
next
  case (Cons c cs)
  from Cons.prems have c: "c \<noteq> []" "hd c \<noteq> sep" "last c \<noteq> sep"
    by (auto simp: segment_def dest: hd_in_set last_in_set)
  show ?case
  proof (cases cs)
    case Nil
    with c show ?thesis by simp
  next
    case (Cons d ds)
    with Cons.IH Cons.prems c show ?thesis
      by (simp add: str_join_Cons)
  qed
qed

lemma str_join_empty_iff:
  "\<forall>c\<in>set cs. segment c \<Longrightarrow> str_join [sep] cs = [] \<longleftrightarrow> cs = []"
  using str_join_segments [of cs] by (cases cs) auto

lemma initial_slashes_shape:
  assumes "k \<le> 2" and "j = [] \<or> hd j \<noteq> sep" and "k = 0 \<longrightarrow> j \<noteq> []"
  shows "initial_slashes_of (replicate k sep @ j) = k"
proof -
  from assms(1) consider "k = 0" | "k = 1" | "k = 2" by linarith
  then show ?thesis
  proof cases
    case 1
    with assms show ?thesis
      by (cases j) (auto simp: initial_slashes_of_def startswith_def)
  next
    case 2
    with assms show ?thesis
      by (cases j) (auto simp: initial_slashes_of_def startswith_def)
  next
    case 3
    then have "replicate k sep = [sep, sep]"
      by (simp add: numeral_2_eq_2)
    with 3 assms show ?thesis
      by (cases j) (auto simp: initial_slashes_of_def startswith_def)
  qed
qed

lemma normpath_fix:
  assumes "k \<le> 2" and "reduced k cs" and "k = 0 \<longrightarrow> cs \<noteq> []"
  shows "normpath (replicate k sep @ str_join [sep] cs) = replicate k sep @ str_join [sep] cs"
proof -
  let ?j = "str_join [sep] cs"
  let ?q = "replicate k sep @ ?j"
  have seg: "\<forall>c\<in>set cs. segment c"
    using assms(2) by (simp add: reduced_def)
  have nosep: "\<forall>c\<in>set cs. sep \<notin> set c"
    using seg by (simp add: segment_def)
  have j: "?j = [] \<or> hd ?j \<noteq> sep"
    using str_join_segments [OF _ seg] by (cases cs) auto
  have j0: "k = 0 \<longrightarrow> ?j \<noteq> []"
    using assms(3) str_join_empty_iff [OF seg] by simp
  have q: "?q \<noteq> []"
    using j0 by auto
  have k: "initial_slashes_of ?q = k"
    using assms(1) j j0 by (rule initial_slashes_shape)
  have split: "str_split sep ?q = replicate k [] @ (if cs = [] then [[]] else cs)"
    using nosep by (simp add: str_split_seps str_split_join)
  have "norm_comps ?q = cs"
  proof (cases "cs = []")
    case True
    then show ?thesis
      unfolding norm_comps_def k split
      by (simp add: foldl_norm_empties norm_step_def)
  next
    case False
    then show ?thesis
      unfolding norm_comps_def k split
      using assms(2) by (simp add: foldl_norm_empties foldl_norm_fix)
  qed
  with q k show ?thesis
    by (simp add: normpath_alt)
qed

lemma normpath_dot: "normpath ''.'' = ''.''"
  by code_simp

lemma normpath_shape:
  "\<exists>k cs. k \<le> 2 \<and> reduced k cs \<and> (k = 0 \<longrightarrow> cs \<noteq> []) \<and>
      (normpath P = replicate k sep @ str_join [sep] cs \<or>
       (normpath P = ''.'' \<and> k = 0 \<and> cs = [''..'']))"
proof (cases "P \<noteq> [] \<and>
    replicate (initial_slashes_of P) sep @ str_join [sep] (norm_comps P) \<noteq> []")
  case True
  let ?k = "initial_slashes_of P" and ?cs = "norm_comps P"
  have a: "?k \<le> 2"
    by (rule initial_slashes_le)
  have b: "reduced ?k ?cs"
    by (rule norm_comps_reduced)
  have c: "?k = 0 \<longrightarrow> ?cs \<noteq> []"
  proof (intro impI notI)
    assume "?k = 0" and "?cs = []"
    then have "replicate ?k sep @ str_join [sep] ?cs = []"
      by simp
    with True show False
      by simp
  qed
  have d: "normpath P = replicate ?k sep @ str_join [sep] ?cs"
    using True by (simp add: normpath_alt)
  show ?thesis
    by (intro exI [of _ ?k] exI [of _ ?cs] conjI a b c disjI1 d)
next
  case False
  have dot: "normpath P = ''.''"
  proof (cases "P = []")
    case True
    then show ?thesis
      by (simp add: normpath_def)
  next
    case ne: False
    with False have q: "replicate (initial_slashes_of P) sep @ str_join [sep] (norm_comps P) = []"
      by blast
    from normpath_alt [OF ne] show ?thesis
      by (simp only: q if_True simp_thms)
  qed
  have r: "reduced 0 [''..'']"
    by (simp add: reduced_def segment_dotdot)
  have "(0::nat) \<le> 2 \<and> reduced 0 [''..''] \<and> ((0::nat) = 0 \<longrightarrow> [''..''] \<noteq> []) \<and>
      (normpath P = replicate 0 sep @ str_join [sep] [''..''] \<or>
       (normpath P = ''.'' \<and> (0::nat) = 0 \<and> [''..''] = [''..'']))"
    using dot r by simp
  then show ?thesis
    by (intro exI [of _ 0] exI [of _ "[''..'']"])
qed

lemma normpath_idem: "normpath (normpath P) = normpath P"
proof -
  obtain k cs where s: "k \<le> 2" "reduced k cs" "k = 0 \<longrightarrow> cs \<noteq> []"
    and d: "normpath P = replicate k sep @ str_join [sep] cs \<or> normpath P = ''.''"
    using normpath_shape [of P] by blast
  from d show ?thesis
  proof
    assume "normpath P = replicate k sep @ str_join [sep] cs"
    with s show ?thesis by (simp add: normpath_fix)
  next
    assume "normpath P = ''.''"
    then show ?thesis by (simp add: normpath_dot)
  qed
qed

lemma rfind_sep_succ_append:
  "sep \<notin> set c \<Longrightarrow> rfind_sep_succ (h @ sep # c) = Suc (length h)"
proof -
  assume c: "sep \<notin> set c"
  have "dropWhile (\<lambda>x. x \<noteq> sep) (rev c @ sep # rev h) = sep # rev h"
    using c by (subst dropWhile_append2) auto
  then show ?thesis
    by (simp add: rfind_sep_succ_def)
qed

lemma rfind_sep_succ_nosep: "sep \<notin> set c \<Longrightarrow> rfind_sep_succ c = 0"
  by (auto simp: rfind_sep_succ_def dropWhile_eq_Nil_conv)

lemma os_split_nosep: "sep \<notin> set c \<Longrightarrow> os_split c = ([], c)"
  by (simp add: os_split_def rfind_sep_succ_nosep)

lemma os_split_seps:
  assumes "sep \<notin> set c"
  shows "os_split (replicate (Suc k) sep @ c) = (replicate (Suc k) sep, c)"
proof -
  have eq: "replicate (Suc k) sep @ c = replicate k sep @ sep # c"
    by (simp add: replicate_append_same)
  have i: "rfind_sep_succ (replicate (Suc k) sep @ c) = Suc k"
    unfolding eq using assms by (simp add: rfind_sep_succ_append)
  have "take (Suc k) (replicate (Suc k) sep @ c) = replicate (Suc k) sep"
    and "drop (Suc k) (replicate (Suc k) sep @ c) = c"
    by simp_all
  then show ?thesis
    unfolding os_split_def i Let_def by (simp del: replicate_Suc)
qed

lemma rstrip_sep_snoc: "h \<noteq> [] \<Longrightarrow> last h \<noteq> sep \<Longrightarrow> rstrip_sep (h @ [sep]) = h"
proof -
  assume h: "h \<noteq> []" "last h \<noteq> sep"
  then have "hd (rev h) \<noteq> sep" "rev h \<noteq> []"
    by (simp_all add: hd_rev)
  then have "dropWhile (\<lambda>c. c = sep) (rev h) = rev h"
    by (cases "rev h") auto
  then show ?thesis
    by (simp add: rstrip_sep_def)
qed

lemma os_split_inner:
  assumes "sep \<notin> set c" and "h \<noteq> []" and "last h \<noteq> sep"
  shows "os_split (h @ sep # c) = (h, c)"
proof -
  have i: "rfind_sep_succ (h @ sep # c) = Suc (length h)"
    using assms(1) by (rule rfind_sep_succ_append)
  have t: "take (Suc (length h)) (h @ sep # c) = h @ [sep]"
    and d: "drop (Suc (length h)) (h @ sep # c) = c"
    by simp_all
  have "h @ [sep] \<noteq> replicate (length (h @ [sep])) sep"
  proof
    assume "h @ [sep] = replicate (length (h @ [sep])) sep"
    then have "set (h @ [sep]) \<subseteq> {sep}"
      by (metis set_replicate_conv_if empty_subsetI subset_refl)
    with assms(2) have "last h = sep"
      by (auto dest: last_in_set)
    with assms(3) show False
      by simp
  qed
  then show ?thesis
    unfolding os_split_def i Let_def t d using assms by (simp add: rstrip_sep_snoc)
qed

lemma os_split_rooted:
  assumes "\<forall>x\<in>set cs. segment x" and "segment c"
  shows "os_split (rooted k (cs @ [c])) = (rooted k cs, c)"
proof (cases cs)
  case Nil
  show ?thesis
  proof (cases k)
    case 0
    with Nil assms show ?thesis
      by (simp add: rooted_def os_split_nosep segment_def)
  next
    case (Suc n)
    with Nil assms os_split_seps [of c n] show ?thesis
      by (simp add: rooted_def segment_def)
  qed
next
  case (Cons d ds)
  then have ne: "cs \<noteq> []" by simp
  from str_join_segments [OF ne assms(1)]
  have h: "rooted k cs \<noteq> []" "last (rooted k cs) \<noteq> sep"
    by (simp_all add: rooted_def)
  have "rooted k (cs @ [c]) = rooted k cs @ sep # c"
    using ne by (simp add: rooted_def str_join_snoc)
  with h assms(2) show ?thesis
    by (simp add: os_split_inner segment_def)
qed

lemma os_split_root: "os_split (replicate k sep) = (replicate k sep, [])"
proof (cases k)
  case 0
  then show ?thesis by (simp add: os_split_nosep)
next
  case (Suc n)
  with os_split_seps [of "[]" n] show ?thesis by simp
qed

lemma split_loop_rooted:
  "\<forall>x\<in>set cs. segment x \<Longrightarrow>
   split_loop (rooted k cs) folders =
     folders @ rev cs @ (if k = 0 then [] else [replicate k sep])"
proof (induction cs arbitrary: folders rule: rev_induct)
  case Nil
  show ?case
    by (subst split_loop.simps) (simp add: rooted_def os_split_root)
next
  case (snoc c cs)
  then have seg: "\<forall>x\<in>set cs. segment x" "segment c"
    by simp_all
  have c: "c \<noteq> []"
    using seg by (simp add: segment_def)
  have "split_loop (rooted k (cs @ [c])) folders = split_loop (rooted k cs) (folders @ [c])"
    by (subst split_loop.simps) (simp add: os_split_rooted [OF seg] c)
  with snoc.IH [OF seg(1)] show ?case
    by simp
qed

lemma split_path_rooted:
  assumes "\<forall>x\<in>set cs. segment x" and "normpath (rooted k cs) = rooted k cs"
  shows "split_path (rooted k cs) =
     (if cs = [] then [replicate k sep, []]
      else (if k = 0 then [] else [replicate k sep]) @ cs)"
proof (cases cs rule: rev_cases)
  case Nil
  have "split_loop (replicate k sep) [[]] = [] # (if k = 0 then [] else [replicate k sep])"
    using split_loop_rooted [of "[]" k "[[]]"] by (simp add: rooted_def)
  moreover have "k \<noteq> 0"
  proof
    assume "k = 0"
    with Nil assms(2) have "normpath [] = []"
      by (simp add: rooted_def)
    then show False
      by (simp add: normpath_def)
  qed
  ultimately show ?thesis
    using Nil assms(2)
    by (simp add: split_path_def splitdrive_def rooted_def os_split_root)
next
  case (snoc ds d)
  with assms(1) have seg: "\<forall>x\<in>set ds. segment x" "segment d"
    by simp_all
  show ?thesis
    using assms(2) snoc
    by (simp add: split_path_def splitdrive_def os_split_rooted [OF seg]
        split_loop_rooted [OF seg(1)])
qed









lemma reduced_segments: "reduced k cs \<Longrightarrow> \<forall>c\<in>set cs. segment c"
  by (simp add: reduced_def)

lemma segment_dot: "segment ''.''"
  by (simp add: segment_def sep_def)

lemma normpath_rooted:
  "\<exists>k cs. k \<le> 2 \<and> (\<forall>c\<in>set cs. segment c) \<and> (k = 0 \<longrightarrow> cs \<noteq> []) \<and>
     normpath P = rooted k cs"
proof -
  obtain k cs where s: "k \<le> 2" "reduced k cs" "k = 0 \<longrightarrow> cs \<noteq> []"
    and d: "normpath P = replicate k sep @ str_join [sep] cs \<or>
            (normpath P = ''.'' \<and> k = 0 \<and> cs = [''..''])"
    using normpath_shape [of P] by blast
  show ?thesis
  proof (cases "normpath P = replicate k sep @ str_join [sep] cs")
    case True
    with s reduced_segments [OF s(2)] show ?thesis
      unfolding rooted_def by blast
  next
    case False
    with d have "normpath P = rooted 0 [''.'']"
      by (simp add: rooted_def)
    then show ?thesis
      using segment_dot by (intro exI [of _ 0] exI [of _ "[''.'']"]) simp
  qed
qed


section \<open>The \<open>node_modules\<close> chain\<close>

lemma node_modules_loop_eq:
  "node_modules_loop h parts n dirs =
     dirs @ map (candidate_dir parts)
              (filter (\<lambda>i. \<not> is_node_modules h (parts ! i)) (rev [0..<n]))"
  by (induction n arbitrary: dirs) (simp_all add: candidate_dir_def)

lemma node_modules_paths_eq:
  "node_modules_paths h start =
     map (candidate_dir (split_path start))
       (filter (\<lambda>i. \<not> is_node_modules h (split_path start ! i))
          (rev [0..<length (split_path start)]))"
  by (simp add: node_modules_paths_def node_modules_loop_eq Let_def)

lemma load_node_modules_loop_Cons:
  "load_node_modules_loop h module (dir # dirs) =
     (case resolve_candidate h (os_join dir [module]) of
        (Inl e, t) \<Rightarrow> (Inl e, t)
      | (Inr r, t) \<Rightarrow>
          if truthy r then (Inr r, t)
          else (fst (load_node_modules_loop h module dirs),
                t @ snd (load_node_modules_loop h module dirs)))"
  by (simp add: resolve_candidate_def Let_def split: prod.splits sum.splits)

lemma load_node_modules_loop_skip:
  assumes "\<forall>d\<in>set pre. fst (resolve_candidate h (os_join d [module])) = Inr None"
  shows "fst (load_node_modules_loop h module (pre @ rest)) = fst (load_node_modules_loop h module rest)"
  using assms
proof (induction pre)
  case Nil
  then show ?case by simp
next
  case (Cons d pre)
  then have "fst (resolve_candidate h (os_join d [module])) = Inr None"
    by simp
  then obtain t where "resolve_candidate h (os_join d [module]) = (Inr None, t)"
    by (cases "resolve_candidate h (os_join d [module])") simp
  with Cons show ?case
    by (simp add: load_node_modules_loop_Cons truthy_def del: load_node_modules_loop.simps)
qed

lemma first_file_found:
  "fst (first_file h cs) = Some p \<Longrightarrow> p \<in> set cs \<and> p \<noteq> [] \<and> isfile h p"
  by (induction cs) (auto simp: first_file_Cons first_file_Nil split: if_splits)

lemma load_as_file_found:
  "fst (load_as_file h path) = Some p \<Longrightarrow> p \<noteq> [] \<and> isfile h p"
  using first_file_found [of h _ p] by (simp add: load_as_file_eq)

lemma load_index_found:
  "fst (load_index h path) = Some p \<Longrightarrow> p \<noteq> [] \<and> isfile h p"
proof (cases "path = []")
  case True
  assume "fst (load_index h path) = Some p"
  with True show ?thesis
    by (simp add: load_index_def load_index_loop_empty)
next
  case False
  assume "fst (load_index h path) = Some p"
  with False first_file_found [of h _ p] show ?thesis
    by (simp add: load_index_eq)
qed


lemma py_or_found: "fst (py_or a b) = Some p \<Longrightarrow> fst a = Some p \<or> fst b = Some p"
  by (auto simp: py_or_def split: if_splits)

lemma load_as_directory_found:
  assumes "fst (load_as_directory h path) = Inr (Some p)"
  shows "p \<noteq> [] \<and> isfile h p"
proof (cases "path = []")
  case True
  with assms show ?thesis
    by (simp add: load_as_directory_empty)
next
  case ne: False
  show ?thesis
  proof (cases "isfile h (os_join path [''package.json''])")
    case False
    with ne assms have "fst (load_index h path) = Some p"
      by (simp add: load_as_directory_no_manifest)
    then show ?thesis
      by (rule load_index_found)
  next
    case True
    note m = load_as_directory_manifest [OF ne True]
    from assms obtain main where
      "fst (py_or (load_as_file h (os_join path [main])) (load_index h (os_join path [main]))) = Some p"
      unfolding m
      by (auto split: file_read.splits json.splits option.splits)
    then have "fst (load_as_file h (os_join path [main])) = Some p \<or>
        fst (load_index h (os_join path [main])) = Some p"
      by (rule py_or_found)
    then show ?thesis
      using load_as_file_found load_index_found by blast
  qed
qed

lemma resolve_candidate_found:
  assumes "fst (resolve_candidate h path) = Inr (Some p)"
  shows "p \<noteq> [] \<and> isfile h p"
proof (cases "truthy (fst (load_as_file h path))")
  case True
  with assms have "fst (load_as_file h path) = Some p"
    by (simp add: resolve_candidate_def split: prod.splits)
  then show ?thesis
    by (rule load_as_file_found)
next
  case False
  with assms have "fst (load_as_directory h path) = Inr (Some p)"
    by (simp add: resolve_candidate_def split: prod.splits)
  then show ?thesis
    by (rule load_as_directory_found)
qed

lemma load_node_modules_loop_hit:
  assumes "fst (resolve_candidate h (os_join d [module])) = Inr (Some f)"
  shows "fst (load_node_modules_loop h module (d # post)) = Inr (Some f)"
proof -
  from assms obtain t where r: "resolve_candidate h (os_join d [module]) = (Inr (Some f), t)"
    by (cases "resolve_candidate h (os_join d [module])") simp
  from resolve_candidate_found [OF assms] have "truthy (Some f)"
    by (simp add: truthy_def)
  with r show ?thesis
    by (simp add: load_node_modules_loop_Cons del: load_node_modules_loop.simps)
qed

text \<open>
  Claim C6. The candidate directories are listed by decreasing segment index: the
  \<open>node_modules\<close> beside the last segment of the start path first, the one beside the root
  last. \<open>load_node_modules\<close> walks this list in order and returns the first candidate that
  resolves: when every directory before \<open>d\<close> gives not-found and \<open>d\<close> gives a file, that
  file is the result, whatever the directories after \<open>d\<close> contain.
\<close>

theorem node_modules_nearest_first:
  "node_modules_paths h start =
     map (candidate_dir (split_path start))
       (filter (\<lambda>i. \<not> is_node_modules h (split_path start ! i))
          (rev [0..<length (split_path start)])) \<and>
   (node_modules_paths h start = pre @ d # post \<and>
    (\<forall>x\<in>set pre. fst (resolve_candidate h (os_join x [module])) = Inr None) \<and>
    fst (resolve_candidate h (os_join d [module])) = Inr (Some f)
    \<longrightarrow> fst (load_node_modules h module start) = Inr (Some f))"
  by (simp add: node_modules_paths_eq [symmetric] load_node_modules_def
      load_node_modules_loop_skip load_node_modules_loop_hit
      del: load_node_modules_loop.simps)

theorem node_modules_nearest_first_witness:
  "node_modules_paths nested_host ''a/b/c''
      = [''a/b/c/node_modules''] @ ''a/b/node_modules'' # [''a/node_modules''] \<and>
   fst (resolve_candidate nested_host (os_join ''a/b/c/node_modules'' [''pkg''])) = Inr None \<and>
   fst (resolve_candidate nested_host (os_join ''a/b/node_modules'' [''pkg'']))
      = Inr (Some ''a/b/node_modules/pkg/index.js'') \<and>
   isfile nested_host ''a/node_modules/pkg/index.js'' \<and>
   fst (load_node_modules nested_host ''pkg'' ''a/b/c'')
      = Inr (Some ''a/b/node_modules/pkg/index.js'')"
proof -
  have a: "node_modules_paths nested_host ''a/b/c''
      = [''a/b/c/node_modules''] @ ''a/b/node_modules'' # [''a/node_modules'']"
    by code_simp
  have b0: "fst (resolve_candidate nested_host (os_join ''a/b/c/node_modules'' [''pkg''])) = Inr None"
    by code_simp
  then have b: "\<forall>x\<in>set [''a/b/c/node_modules''].
      fst (resolve_candidate nested_host (os_join x [''pkg''])) = Inr None"
    by simp
  have c: "fst (resolve_candidate nested_host (os_join ''a/b/node_modules'' [''pkg'']))
      = Inr (Some ''a/b/node_modules/pkg/index.js'')"
    by code_simp
  have d: "isfile nested_host ''a/node_modules/pkg/index.js''"
    by code_simp
  from node_modules_nearest_first
    [of nested_host "''a/b/c''" "[''a/b/c/node_modules'']" "''a/b/node_modules''"
      "[''a/node_modules'']" "''pkg''" "''a/b/node_modules/pkg/index.js''"]
  have "fst (load_node_modules nested_host ''pkg'' ''a/b/c'')
      = Inr (Some ''a/b/node_modules/pkg/index.js'')"
    using a b c by blast
  with a b0 c d show ?thesis
    by blast
qed

text \<open>
  Claim C1 says that no candidate ends in \<open>node_modules/node_modules\<close>, because a segment
  that is literally \<open>node_modules\<close> is skipped. The code tests \<open>parts[i] is 'node_modules'\<close>,
  an identity test that CPython answers with \<open>False\<close> for the segments \<open>split_path\<close>
  builds, so no segment is skipped and the doubled candidate is produced. With a comparison
  by \<open>==\<close> the same start path gives no doubled candidate.
\<close>

theorem node_modules_paths_doubled:
  "node_modules_paths (host_of [] (\<lambda>p. NotJson) []) ''/a/node_modules/x'' =
     [''/a/node_modules/x/node_modules'', ''/a/node_modules/node_modules'',
      ''/a/node_modules'', ''/node_modules''] \<and>
   endswith ''/a/node_modules/node_modules'' ''node_modules/node_modules''"
  by code_simp

lemma node_modules_paths_by_equality:
  "node_modules_paths ((host_of [] (\<lambda>p. NotJson) [])\<lparr>is_node_modules := by_equality\<rparr>)
       ''/a/node_modules/x'' =
     [''/a/node_modules/x/node_modules'', ''/a/node_modules'', ''/node_modules'']"
  by code_simp

section \<open>The alias fallback\<close>

lemma first_file_continue:
  "(if truthy (fst (first_file h xs)) then first_file h xs
    else (case first_file h ys of (r, t) \<Rightarrow> (r, snd (first_file h xs) @ t)))
   = first_file h (xs @ ys)"
  by (cases "first_file h ys") (simp add: first_file_truthy first_file_append)

lemma first_file_continue_case:
  "(case first_file h xs of (file, t) \<Rightarrow>
      if truthy file then (file, t)
      else (case first_file h ys of (r, t') \<Rightarrow> (r, t @ t')))
   = first_file h (xs @ ys)"
proof -
  obtain a b where x: "first_file h xs = (a, b)"
    by (cases "first_file h xs")
  obtain c d where y: "first_file h ys = (c, d)"
    by (cases "first_file h ys")
  from first_file_truthy [of h xs] x have t: "truthy a = (a \<noteq> None)"
    by simp
  from first_file_append [of h xs ys] x y
  have "first_file h (xs @ ys) = (if a \<noteq> None then (a, b) else (c, b @ d))"
    by simp
  with x y t show ?thesis
    by simp
qed

lemma find_import_inner_eq:
  "find_import_inner h module project_path root exts =
     first_file h (concat (map (\<lambda>e.
         [os_join (os_join project_path [root]) [module],
          os_join (os_join project_path [root]) [module @ e],
          os_join (os_join project_path [root]) [module, ''index'' @ e]]) exts))"
proof (induction exts)
  case Nil
  then show ?case by (simp add: first_file_Nil)
next
  case (Cons e es)
  let ?f = "os_join project_path [root]"
  let ?three = "[os_join ?f [module], os_join ?f [module @ e], os_join ?f [module, ''index'' @ e]]"
  have three: "py_or (returnIfFile h (Some (os_join ?f [module])) None)
           (py_or (returnIfFile h (Some (os_join ?f [module @ e])) None)
                  (returnIfFile h (Some (os_join ?f [module, ''index'' @ e])) None))
        = first_file h ?three"
    by (simp only: returnIfFile_plain py_or_first_file append_Cons append_Nil)
  have "find_import_inner h module project_path root (e # es) =
      first_file h (?three @ concat (map (\<lambda>e.
         [os_join ?f [module], os_join ?f [module @ e], os_join ?f [module, ''index'' @ e]]) es))"
    by (simp only: find_import_inner.simps Let_def three Cons first_file_continue)
  then show ?case
    by simp
qed

lemma find_import_outer_eq:
  "find_import_outer h module project_path roots exts =
     first_file h (alias_candidates module project_path roots exts)"
proof (induction roots)
  case Nil
  then show ?case by (simp add: alias_candidates_def first_file_Nil)
next
  case (Cons r rs)
  let ?one = "concat (map (\<lambda>e.
         [os_join (os_join project_path [r]) [module],
          os_join (os_join project_path [r]) [module @ e],
          os_join (os_join project_path [r]) [module, ''index'' @ e]]) exts)"
  have "find_import_outer h module project_path (r # rs) exts =
      (case first_file h ?one of (file, t) \<Rightarrow>
         if truthy file then (file, t)
         else (case first_file h (alias_candidates module project_path rs exts) of
                 (r, t') \<Rightarrow> (r, t @ t')))"
    by (simp only: find_import_outer.simps find_import_inner_eq Cons)
  also have "\<dots> = first_file h (?one @ alias_candidates module project_path rs exts)"
    by (rule first_file_continue_case)
  finally show ?case
    by (simp add: alias_candidates_def)
qed

lemma find_import_module_eq:
  "find_import_module h module project_path webpack_modules exts =
     first_file h (alias_candidates module project_path
        (case webpack_modules of None \<Rightarrow> [] | Some roots \<Rightarrow> roots) exts)"
  by (simp add: find_import_module_def find_import_outer_eq alias_candidates_def first_file_Nil
      split: option.splits list.splits)

lemma returnIfFile_of_first_file:
  "returnIfFile h (fst (first_file h cs)) None =
     (fst (first_file h cs), case fst (first_file h cs) of None \<Rightarrow> [] | Some p \<Rightarrow> [Probe p])"
proof (cases "fst (first_file h cs)")
  case None
  then show ?thesis
    by (simp add: returnIfFile_falsy truthy_def)
next
  case (Some p)
  with first_file_found [OF Some] show ?thesis
    by (simp add: returnIfFile_if)
qed

lemma find_module_unfold:
  assumes "extract_variables w ''file_path'' = Some file_path"
    and "extract_variables w ''project_path'' = Some project_path"
    and "find_require_module h module file_path = (Inr match, t1)"
  shows "find_module h w module =
     (if fst (returnIfFile h match None) \<noteq> None
      then (Inr (fst (returnIfFile h match None)),
            t1 @ snd (returnIfFile h match None) @ snd (returnIfFile h match None))
      else (Inr (fst (first_file h (alias_candidates module project_path (alias_roots w)
                        (alias_extensions h w)))),
            t1 @ snd (returnIfFile h match None)
               @ snd (first_file h (alias_candidates module project_path (alias_roots w)
                        (alias_extensions h w)))
               @ (case fst (first_file h (alias_candidates module project_path (alias_roots w)
                        (alias_extensions h w))) of None \<Rightarrow> [] | Some p \<Rightarrow> [Probe p])))"
proof -
  let ?search = "first_file h (alias_candidates module project_path (alias_roots w)
                        (alias_extensions h w))"
  have imp: "find_import_module h module project_path (webpack_resolve_modules w)
      (case webpack_resolve_extensions w of None \<Rightarrow> resolve_extensions h
         | Some [] \<Rightarrow> resolve_extensions h | Some es \<Rightarrow> es) = ?search"
    by (simp only: find_import_module_eq alias_roots_def alias_extensions_def)
  have re: "returnIfFile h (fst ?search) None =
      (fst ?search, case fst ?search of None \<Rightarrow> [] | Some p \<Rightarrow> [Probe p])"
    by (rule returnIfFile_of_first_file)
  obtain r t where m: "returnIfFile h match None = (r, t)"
    by (cases "returnIfFile h match None")
  have tr: "truthy r = (r \<noteq> None)"
    using returnIfFile_truthy [of h match None] m by simp
  have falsy: "\<not> truthy match \<Longrightarrow> r = None \<and> t = []"
    using m by (simp add: returnIfFile_falsy)
  obtain a b where al: "?search = (a, b)"
    by (cases ?search)
  show ?thesis
  proof (cases "truthy match")
    case False
    with falsy have "r = None" "t = []" by simp_all
    with False assms m al re imp show ?thesis
      by (simp add: find_module_def Let_def)
  next
    case True
    with assms m al re imp tr show ?thesis
      by (simp add: find_module_def Let_def)
  qed
qed


lemma returnIfFile_same:
  "fst (returnIfFile h match None) \<noteq> None \<Longrightarrow> fst (returnIfFile h match None) = match"
  by (cases match) (auto simp: returnIfFile_falsy truthy_def returnIfFile_if split: if_splits)

text \<open>
  Claim C8, as amended. \<open>find_module\<close> runs the alias search exactly when the primary result
  is not an existing regular file: primary resolution returned not-found, or it returned a
  value that is no file, as the name of a core module. Otherwise the primary result is
  returned and no alias candidate is probed. With no alias roots configured the search
  probes nothing, and an unresolved specifier gives not-found with the probes of the primary
  resolution only. The search itself goes through the roots in order, for each root through
  the extensions in order, and tries for each pair the exact joined path, that path with the
  extension, and the index file with the extension; the first regular file wins.
\<close>

theorem alias_fallback:
  assumes "extract_variables w ''file_path'' = Some file_path"
    and "extract_variables w ''project_path'' = Some project_path"
    and "find_require_module h module file_path = (Inr match, t1)"
  shows
    "(fst (returnIfFile h match None) \<noteq> None \<longrightarrow>
        find_module h w module =
          (Inr match, t1 @ snd (returnIfFile h match None) @ snd (returnIfFile h match None))) \<and>
     (fst (returnIfFile h match None) = None \<longrightarrow>
        find_module h w module =
          (Inr (fst (first_file h (alias_candidates module project_path (alias_roots w)
                        (alias_extensions h w)))),
           t1 @ snd (returnIfFile h match None)
              @ snd (first_file h (alias_candidates module project_path (alias_roots w)
                        (alias_extensions h w)))
              @ (case fst (first_file h (alias_candidates module project_path (alias_roots w)
                        (alias_extensions h w))) of None \<Rightarrow> [] | Some p \<Rightarrow> [Probe p]))) \<and>
     (alias_roots w = [] \<and> match = None \<longrightarrow> find_module h w module = (Inr None, t1)) \<and>
     find_import_module h module project_path (webpack_resolve_modules w) (alias_extensions h w)
       = first_file h (alias_candidates module project_path (alias_roots w) (alias_extensions h w))"
proof (intro conjI impI)
  assume "fst (returnIfFile h match None) \<noteq> None"
  then show "find_module h w module =
      (Inr match, t1 @ snd (returnIfFile h match None) @ snd (returnIfFile h match None))"
    using returnIfFile_same [of h match] by (simp add: find_module_unfold [OF assms])
next
  assume "fst (returnIfFile h match None) = None"
  then show "find_module h w module =
          (Inr (fst (first_file h (alias_candidates module project_path (alias_roots w)
                        (alias_extensions h w)))),
           t1 @ snd (returnIfFile h match None)
              @ snd (first_file h (alias_candidates module project_path (alias_roots w)
                        (alias_extensions h w)))
              @ (case fst (first_file h (alias_candidates module project_path (alias_roots w)
                        (alias_extensions h w))) of None \<Rightarrow> [] | Some p \<Rightarrow> [Probe p]))"
    by (simp add: find_module_unfold [OF assms])
next
  assume "alias_roots w = [] \<and> match = None"
  then show "find_module h w module = (Inr None, t1)"
    by (simp add: find_module_unfold [OF assms] returnIfFile_falsy truthy_def
        alias_candidates_def first_file_Nil)
next
  show "find_import_module h module project_path (webpack_resolve_modules w) (alias_extensions h w)
       = first_file h (alias_candidates module project_path (alias_roots w) (alias_extensions h w))"
    by (simp only: find_import_module_eq alias_roots_def)
qed

theorem alias_fallback_witness:
  "extract_variables alias_window ''file_path'' = Some ''/p/a'' \<and>
   extract_variables alias_window ''project_path'' = Some ''/p'' \<and>
   find_require_module alias_host ''./x.js'' ''/p/a''
     = (Inr (Some ''/p/a/x.js''), [Probe ''/p/a/x.js'']) \<and>
   fst (returnIfFile alias_host (Some ''/p/a/x.js'') None) \<noteq> None \<and>
   find_module alias_host alias_window ''./x.js''
     = (Inr (Some ''/p/a/x.js''), [Probe ''/p/a/x.js'', Probe ''/p/a/x.js'', Probe ''/p/a/x.js'']) \<and>
   find_require_module alias_host ''widgets'' ''/p/a'' = (Inr None, primary_probes) \<and>
   fst (returnIfFile alias_host None None) = None \<and>
   find_module alias_host alias_window ''widgets''
     = (Inr (Some ''/p/src/widgets/index.js''),
        primary_probes @ [Probe ''/p/src/widgets'', Probe ''/p/src/widgets.js'',
          Probe ''/p/src/widgets/index.js'', Probe ''/p/src/widgets/index.js'']) \<and>
   alias_roots (alias_window\<lparr>webpack_resolve_modules := None\<rparr>) = [] \<and>
   find_module alias_host (alias_window\<lparr>webpack_resolve_modules := None\<rparr>) ''widgets''
     = (Inr None, primary_probes)"
proof -
  let ?w0 = "alias_window\<lparr>webpack_resolve_modules := None\<rparr>"
  have fp: "extract_variables alias_window ''file_path'' = Some ''/p/a''"
    by (simp add: alias_window_def)
  have pp: "extract_variables alias_window ''project_path'' = Some ''/p''"
    by (simp add: alias_window_def)
  have fp0: "extract_variables ?w0 ''file_path'' = Some ''/p/a''"
    by (simp add: alias_window_def)
  have pp0: "extract_variables ?w0 ''project_path'' = Some ''/p''"
    by (simp add: alias_window_def)
  have prim1: "find_require_module alias_host ''./x.js'' ''/p/a''
     = (Inr (Some ''/p/a/x.js''), [Probe ''/p/a/x.js''])"
    by code_simp
  have re1: "returnIfFile alias_host (Some ''/p/a/x.js'') None
     = (Some ''/p/a/x.js'', [Probe ''/p/a/x.js''])"
    by code_simp
  have hit1: "fst (returnIfFile alias_host (Some ''/p/a/x.js'') None) \<noteq> None"
    by (simp add: re1)
  have prim2: "find_require_module alias_host ''widgets'' ''/p/a'' = (Inr None, primary_probes)"
    by code_simp
  have re2: "returnIfFile alias_host None None = (None, [])"
    by code_simp
  have miss2: "fst (returnIfFile alias_host None None) = None"
    by (simp add: re2)
  have al2: "first_file alias_host (alias_candidates ''widgets'' ''/p'' (alias_roots alias_window)
        (alias_extensions alias_host alias_window))
      = (Some ''/p/src/widgets/index.js'',
         [Probe ''/p/src/widgets'', Probe ''/p/src/widgets.js'', Probe ''/p/src/widgets/index.js''])"
    by code_simp
  have roots0: "alias_roots ?w0 = []"
    by (simp add: alias_roots_def)
  have r1: "find_module alias_host alias_window ''./x.js''
     = (Inr (Some ''/p/a/x.js''), [Probe ''/p/a/x.js'', Probe ''/p/a/x.js'', Probe ''/p/a/x.js''])"
    using alias_fallback [OF fp pp prim1, THEN conjunct1, rule_format, OF hit1]
    by (simp add: re1)
  have r2: "find_module alias_host alias_window ''widgets''
     = (Inr (Some ''/p/src/widgets/index.js''),
        primary_probes @ [Probe ''/p/src/widgets'', Probe ''/p/src/widgets.js'',
          Probe ''/p/src/widgets/index.js'', Probe ''/p/src/widgets/index.js''])"
    using alias_fallback [OF fp pp prim2, THEN conjunct2, THEN conjunct1, rule_format, OF miss2]
    by (simp add: re2 al2)
  have r3: "find_module alias_host ?w0 ''widgets'' = (Inr None, primary_probes)"
    using alias_fallback [OF fp0 pp0 prim2, THEN conjunct2, THEN conjunct2, THEN conjunct1]
      roots0 by simp
  show ?thesis
    by (intro conjI fp pp prim1 hit1 r1 prim2 miss2 r2 roots0 r3)
qed

text \<open>
  As stated, claim C8 lets the alias search run only after primary resolution has failed.
  For the core module \<open>fs\<close> primary resolution succeeds with the name itself, and the alias
  search runs all the same and supplies the result.
\<close>

theorem alias_fallback_counterexample:
  "find_require_module alias_host ''fs'' ''/p/a'' = (Inr (Some ''fs''), []) \<and>
   find_module alias_host alias_window ''fs'' =
     (Inr (Some ''/p/src/fs.js''),
      [Probe ''fs'', Probe ''/p/src/fs'', Probe ''/p/src/fs.js'', Probe ''/p/src/fs.js''])"
proof -
  have a: "find_require_module alias_host ''fs'' ''/p/a'' = (Inr (Some ''fs''), [])"
    by code_simp
  have b: "find_module alias_host alias_window ''fs'' =
     (Inr (Some ''/p/src/fs.js''),
      [Probe ''fs'', Probe ''/p/src/fs'', Probe ''/p/src/fs.js'', Probe ''/p/src/fs.js''])"
    by code_simp
  show ?thesis
    by (rule conjI [OF a b])
qed

section \<open>The top-level resolution\<close>

lemma find_require_module_relative:
  "module \<notin> set CORE_MODULES \<Longrightarrow> startswith module ''.'' \<Longrightarrow>
   find_require_module h module file_path =
     resolve_candidate h (normpath (os_join file_path [module]))"
  by (simp add: find_require_module_def resolve_candidate_def Let_def)

lemma find_require_module_bare:
  "module \<notin> set CORE_MODULES \<Longrightarrow> \<not> startswith module ''.'' \<Longrightarrow>
   find_require_module h module file_path = load_node_modules h module file_path"
  by (simp add: find_require_module_def)

text \<open>
  Claim C7 sends a specifier that is filesystem-absolute through the relative branch, as the
  pseudo-code above \<open>find_require_module\<close> does, and keeps it out of the \<open>node_modules\<close>
  search. The code tests \<open>module.startswith('.')\<close> only. The specifier \<open>/x/../y\<close> is
  searched as a bare one: it is probed once per ancestor directory, never normalised, and
  not found, while the candidate of the relative branch, \<open>/y\<close>, is a file.
\<close>

theorem absolute_specifier_searched_as_bare:
  "find_require_module rooted_host ''/x/../y'' ''/proj/src''
     = load_node_modules rooted_host ''/x/../y'' ''/proj/src'' \<and>
   find_require_module rooted_host ''/x/../y'' ''/proj/src''
     = (Inr None,
        [Probe ''/x/../y'', Probe ''/x/../y.js'', Probe ''/x/../y/package.json'',
         Probe ''/x/../y/index.js'',
         Probe ''/x/../y'', Probe ''/x/../y.js'', Probe ''/x/../y/package.json'',
         Probe ''/x/../y/index.js'',
         Probe ''/x/../y'', Probe ''/x/../y.js'', Probe ''/x/../y/package.json'',
         Probe ''/x/../y/index.js'']) \<and>
   normpath (os_join ''/proj/src'' [''/x/../y'']) = ''/y'' \<and>
   resolve_candidate rooted_host ''/y'' = (Inr (Some ''/y''), [Probe ''/y''])"
proof -
  have a: "find_require_module rooted_host ''/x/../y'' ''/proj/src''
     = load_node_modules rooted_host ''/x/../y'' ''/proj/src''"
    by code_simp
  have b: "find_require_module rooted_host ''/x/../y'' ''/proj/src''
     = (Inr None,
        [Probe ''/x/../y'', Probe ''/x/../y.js'', Probe ''/x/../y/package.json'',
         Probe ''/x/../y/index.js'',
         Probe ''/x/../y'', Probe ''/x/../y.js'', Probe ''/x/../y/package.json'',
         Probe ''/x/../y/index.js'',
         Probe ''/x/../y'', Probe ''/x/../y.js'', Probe ''/x/../y/package.json'',
         Probe ''/x/../y/index.js''])"
    by code_simp
  have c: "normpath (os_join ''/proj/src'' [''/x/../y'']) = ''/y''"
    by code_simp
  have d: "resolve_candidate rooted_host ''/y'' = (Inr (Some ''/y''), [Probe ''/y''])"
    by code_simp
  show ?thesis
    by (intro conjI a b c d)
qed

section \<open>Absolute paths stay absolute\<close>

lemma isabs_nonempty: "isabs p \<Longrightarrow> p \<noteq> []"
  by (auto simp: isabs_def startswith_def)

lemma isabs_append: "isabs p \<Longrightarrow> isabs (p @ e)"
  by (cases p) (auto simp: isabs_def startswith_def)

lemma isabs_join_step: "isabs a \<Longrightarrow> isabs (join_step a b)"
  by (simp add: join_step_def isabs_append) (simp add: isabs_def)

lemma isabs_os_join: "isabs a \<Longrightarrow> isabs (os_join a bs)"
  unfolding os_join_def
  by (induction bs arbitrary: a) (simp_all add: isabs_join_step)

lemma isabs_rooted: "isabs (rooted k cs) \<Longrightarrow> \<forall>c\<in>set cs. segment c \<Longrightarrow> k \<noteq> 0"
proof
  assume a: "isabs (rooted k cs)" and s: "\<forall>c\<in>set cs. segment c" and k: "k = 0"
  show False
  proof (cases "cs = []")
    case True
    with a k show False
      by (simp add: rooted_def isabs_def startswith_def)
  next
    case False
    from str_join_segments [OF False s] a k show False
      by (cases "str_join [sep] cs") (auto simp: rooted_def isabs_def startswith_def)
  qed
qed

lemma isabs_normpath:
  assumes "isabs p"
  shows "isabs (normpath p)"
proof -
  from assms have ne: "p \<noteq> []"
    by (rule isabs_nonempty)
  from assms have k: "initial_slashes_of p \<noteq> 0"
    by (simp add: initial_slashes_of_def isabs_def)
  then obtain n where n: "initial_slashes_of p = Suc n"
    by (cases "initial_slashes_of p") simp_all
  have "normpath p = replicate (Suc n) sep @ str_join [sep] (norm_comps p)"
    using ne n by (simp add: normpath_alt)
  then show ?thesis
    by (simp add: isabs_def startswith_def)
qed

lemma split_path_normpath: "split_path (normpath P) = split_path P"
  by (simp add: split_path_def normpath_idem)

lemma split_path_abs:
  assumes "isabs start"
  shows "\<exists>x xs. split_path start = x # xs \<and> isabs x"
proof -
  obtain k cs where s: "\<forall>c\<in>set cs. segment c" and n: "normpath start = rooted k cs"
    using normpath_rooted [of start] by blast
  have stable: "normpath (rooted k cs) = rooted k cs"
    using normpath_idem [of start] by (simp add: n)
  from isabs_normpath [OF assms] n have "isabs (rooted k cs)"
    by simp
  then have k: "k \<noteq> 0"
    using s by (rule isabs_rooted)
  then obtain m where m: "k = Suc m"
    by (cases k) simp_all
  have "split_path start = split_path (rooted k cs)"
    using split_path_normpath [of start] n by simp
  also have "\<dots> = (if cs = [] then [replicate k sep, []] else [replicate k sep] @ cs)"
    using k by (simp add: split_path_rooted [OF s stable])
  finally have "split_path start = replicate k sep # (if cs = [] then [[]] else cs)"
    by simp
  moreover have "isabs (replicate k sep)"
    using m by (simp add: isabs_def startswith_def)
  ultimately show ?thesis
    by blast
qed

lemma candidate_dir_abs:
  assumes "parts = x # xs" and "isabs x"
  shows "isabs (candidate_dir parts i)"
  using assms by (simp add: candidate_dir_def isabs_os_join)

lemma node_modules_paths_abs:
  assumes "isabs start" and "d \<in> set (node_modules_paths h start)"
  shows "isabs d"
proof -
  obtain x xs where p: "split_path start = x # xs" "isabs x"
    using split_path_abs [OF assms(1)] by blast
  from assms(2) obtain i where "d = candidate_dir (split_path start) i"
    by (auto simp: node_modules_paths_eq)
  with p show ?thesis
    by (simp add: candidate_dir_abs)
qed

lemma load_as_file_abs:
  assumes "isabs path" and "fst (load_as_file h path) = Some p"
  shows "isabs p"
proof -
  from assms(2) have "fst (first_file h (path # map ((@) path) (resolve_extensions h))) = Some p"
    by (simp add: load_as_file_eq)
  then have "p \<in> set (path # map ((@) path) (resolve_extensions h))"
    by (rule first_file_found [THEN conjunct1])
  with assms(1) show ?thesis
    by (auto simp: isabs_append)
qed

lemma load_index_abs:
  assumes "isabs path" and "fst (load_index h path) = Some p"
  shows "isabs p"
proof -
  from assms(1) have "path \<noteq> []"
    by (rule isabs_nonempty)
  with assms(2) have "fst (first_file h (map (\<lambda>e. os_join path [''index'' @ e])
      (resolve_extensions h))) = Some p"
    by (simp add: load_index_eq)
  then have "p \<in> set (map (\<lambda>e. os_join path [''index'' @ e]) (resolve_extensions h))"
    by (rule first_file_found [THEN conjunct1])
  with assms(1) show ?thesis
    by (auto simp: isabs_os_join)
qed

lemma load_as_directory_abs:
  assumes "isabs path" and "fst (load_as_directory h path) = Inr (Some p)"
  shows "isabs p"
proof -
  from assms(1) have ne: "path \<noteq> []"
    by (rule isabs_nonempty)
  show ?thesis
  proof (cases "isfile h (os_join path [''package.json''])")
    case False
    with ne assms(2) have "fst (load_index h path) = Some p"
      by (simp add: load_as_directory_no_manifest)
    with assms(1) show ?thesis
      by (rule load_index_abs)
  next
    case True
    note m = load_as_directory_manifest [OF ne True]
    from assms(2) obtain main where
      "fst (py_or (load_as_file h (os_join path [main])) (load_index h (os_join path [main]))) = Some p"
      unfolding m
      by (auto split: file_read.splits json.splits option.splits)
    then have "fst (load_as_file h (os_join path [main])) = Some p \<or>
        fst (load_index h (os_join path [main])) = Some p"
      by (rule py_or_found)
    moreover have "isabs (os_join path [main])"
      using assms(1) by (rule isabs_os_join)
    ultimately show ?thesis
      using load_as_file_abs load_index_abs by blast
  qed
qed

lemma resolve_candidate_abs:
  assumes "isabs path" and "fst (resolve_candidate h path) = Inr (Some p)"
  shows "isabs p"
proof (cases "truthy (fst (load_as_file h path))")
  case True
  with assms(2) have "fst (load_as_file h path) = Some p"
    by (simp add: resolve_candidate_def split: prod.splits)
  with assms(1) show ?thesis
    by (rule load_as_file_abs)
next
  case False
  with assms(2) have "fst (load_as_directory h path) = Inr (Some p)"
    by (simp add: resolve_candidate_def split: prod.splits)
  with assms(1) show ?thesis
    by (rule load_as_directory_abs)
qed

lemma load_node_modules_loop_out:
  assumes "\<forall>d\<in>set dirs. isabs d"
    and "fst (load_node_modules_loop h module dirs) = Inr (Some p)"
  shows "isfile h p \<and> isabs p"
  using assms
proof (induction dirs)
  case Nil
  then show ?case by simp
next
  case (Cons d dirs)
  obtain r t where rc: "resolve_candidate h (os_join d [module]) = (r, t)"
    by (cases "resolve_candidate h (os_join d [module])")
  have abs: "isabs (os_join d [module])"
    using Cons.prems(1) by (simp add: isabs_os_join)
  show ?case
  proof (cases r)
    case (Inl e)
    with rc Cons.prems(2) show ?thesis
      by (simp add: load_node_modules_loop_Cons del: load_node_modules_loop.simps)
  next
    case (Inr v)
    show ?thesis
    proof (cases "truthy v")
      case True
      with rc Inr Cons.prems(2) have "fst (resolve_candidate h (os_join d [module])) = Inr (Some p)"
        by (simp add: load_node_modules_loop_Cons del: load_node_modules_loop.simps)
      then show ?thesis
        using resolve_candidate_found resolve_candidate_abs [OF abs] by blast
    next
      case False
      with rc Inr Cons.prems(2) have "fst (load_node_modules_loop h module dirs) = Inr (Some p)"
        by (simp add: load_node_modules_loop_Cons del: load_node_modules_loop.simps)
      with Cons.IH Cons.prems(1) show ?thesis
        by simp
    qed
  qed
qed

lemma find_require_module_out:
  assumes "isabs file_path" and "fst (find_require_module h module file_path) = Inr (Some p)"
  shows "(p = module \<and> module \<in> set CORE_MODULES) \<or> (isfile h p \<and> isabs p)"
proof (cases "module \<in> set CORE_MODULES")
  case True
  with assms(2) show ?thesis
    by (simp add: find_require_module_def)
next
  case core: False
  show ?thesis
  proof (cases "startswith module ''.''")
    case True
    with core assms(2)
    have r: "fst (resolve_candidate h (normpath (os_join file_path [module]))) = Inr (Some p)"
      by (simp add: find_require_module_relative)
    have "isabs (normpath (os_join file_path [module]))"
      using assms(1) by (intro isabs_normpath isabs_os_join)
    with r show ?thesis
      using resolve_candidate_found resolve_candidate_abs by blast
  next
    case False
    with core assms(2)
    have "fst (load_node_modules_loop h module (node_modules_paths h file_path)) = Inr (Some p)"
      by (simp add: find_require_module_bare load_node_modules_def)
    moreover have "\<forall>d\<in>set (node_modules_paths h file_path). isabs d"
      using node_modules_paths_abs [OF assms(1)] by blast
    ultimately show ?thesis
      using load_node_modules_loop_out by blast
  qed
qed

lemma alias_candidates_abs:
  assumes "isabs project_path" and "p \<in> set (alias_candidates module project_path roots exts)"
  shows "isabs p"
  using assms by (auto simp: alias_candidates_def isabs_os_join)

lemma returnIfFile_out:
  "fst (returnIfFile h match None) = Some p \<Longrightarrow> match = Some p \<and> isfile h p"
  by (cases match) (auto simp: returnIfFile_falsy truthy_def returnIfFile_if split: if_splits)


lemma find_module_primary:
  assumes "extract_variables w ''file_path'' = Some file_path"
    and "find_require_module h module file_path = (Inr match, t1)"
    and "fst (returnIfFile h match None) \<noteq> None"
  shows "fst (find_module h w module) = Inr match"
proof -
  obtain r t where m: "returnIfFile h match None = (r, t)"
    by (cases "returnIfFile h match None")
  with assms(3) have r: "r \<noteq> None"
    by simp
  have tr: "truthy r"
    using returnIfFile_truthy [of h match None] m r by simp
  have tm: "truthy match"
    using returnIfFile_falsy [of match h None] m r by auto
  have "r = match"
    using returnIfFile_same [OF assms(3)] m by simp
  with assms(1,2) m tr tm show ?thesis
    by (simp add: find_module_def)
qed

lemma find_module_out:
  assumes "\<forall>v. extract_variables w ''file_path'' = Some v \<longrightarrow> isabs v"
    and "\<forall>v. extract_variables w ''project_path'' = Some v \<longrightarrow> isabs v"
    and "fst (find_module h w module) = Inr (Some p)"
  shows "isfile h p \<and> (isabs p \<or> (p = module \<and> module \<in> set CORE_MODULES))"
proof -
  obtain file_path where fp: "extract_variables w ''file_path'' = Some file_path"
    using assms(3) by (cases "extract_variables w ''file_path''") (simp_all add: find_module_def)
  obtain r1 t1 where prim: "find_require_module h module file_path = (r1, t1)"
    by (cases "find_require_module h module file_path")
  obtain match where r1: "r1 = Inr match"
    using assms(3) fp prim by (cases r1) (simp_all add: find_module_def)
  note prim = prim [unfolded r1]
  have fpabs: "isabs file_path"
    using assms(1) fp by simp
  show ?thesis
  proof (cases "fst (returnIfFile h match None) \<noteq> None")
    case True
    from find_module_primary [OF fp prim True] assms(3) have m: "match = Some p"
      by simp
    with True have "isfile h p"
      using returnIfFile_out [of h match] by auto
    moreover from prim m have "fst (find_require_module h module file_path) = Inr (Some p)"
      by simp
    then have "(p = module \<and> module \<in> set CORE_MODULES) \<or> (isfile h p \<and> isabs p)"
      using fpabs by (intro find_require_module_out)
    ultimately show ?thesis
      by blast
  next
    case False
    then have none: "fst (returnIfFile h match None) = None"
      by simp
    obtain rt where rt: "returnIfFile h match None = (None, rt)"
      using none by (cases "returnIfFile h match None") simp
    obtain project_path where pp: "extract_variables w ''project_path'' = Some project_path"
    proof (cases "extract_variables w ''project_path''")
      case None
      have "\<not> truthy (fst (returnIfFile h match None))"
        using none by (simp add: truthy_def)
      with None fp prim rt assms(3) show ?thesis
        by (simp add: find_module_def truthy_def split: if_splits)
    next
      case (Some v)
      then show ?thesis
        using that by simp
    qed
    have ppabs: "isabs project_path"
      using assms(2) pp by simp
    from find_module_unfold [OF fp pp prim] none assms(3)
    have "fst (first_file h (alias_candidates module project_path (alias_roots w)
        (alias_extensions h w))) = Some p"
      by simp
    from first_file_found [OF this] ppabs show ?thesis
      using alias_candidates_abs by blast
  qed
qed

text \<open>
  Claim C3. For a specifier that is one of \<open>CORE_MODULES\<close>, the top-level resolution
  \<open>find_require_module\<close> returns that very string and touches no file. What resolution
  hands out, from a requesting directory and a project root that are absolute, is not-found,
  the name of a core module, or the absolute path of an existing regular file; this holds of
  \<open>find_require_module\<close> and of \<open>find_module\<close>, which returns a core name only when a file
  of that name exists.
\<close>

theorem core_module_short_circuit:
  "(module \<in> set CORE_MODULES \<longrightarrow>
      find_require_module h module file_path = (Inr (Some module), [])) \<and>
   (isabs file_path \<and> fst (find_require_module h module file_path) = Inr (Some p) \<longrightarrow>
      (p = module \<and> module \<in> set CORE_MODULES) \<or> (isfile h p \<and> isabs p)) \<and>
   ((\<forall>v. extract_variables w ''file_path'' = Some v \<longrightarrow> isabs v) \<and>
    (\<forall>v. extract_variables w ''project_path'' = Some v \<longrightarrow> isabs v) \<and>
    fst (find_module h w module) = Inr (Some q) \<longrightarrow>
      isfile h q \<and> (isabs q \<or> (q = module \<and> module \<in> set CORE_MODULES)))"
proof (intro conjI impI)
  assume "module \<in> set CORE_MODULES"
  then show "find_require_module h module file_path = (Inr (Some module), [])"
    by (simp add: find_require_module_def)
next
  assume "isabs file_path \<and> fst (find_require_module h module file_path) = Inr (Some p)"
  then show "(p = module \<and> module \<in> set CORE_MODULES) \<or> (isfile h p \<and> isabs p)"
    using find_require_module_out by blast
next
  assume a: "(\<forall>v. extract_variables w ''file_path'' = Some v \<longrightarrow> isabs v) \<and>
    (\<forall>v. extract_variables w ''project_path'' = Some v \<longrightarrow> isabs v) \<and>
    fst (find_module h w module) = Inr (Some q)"
  then show "isfile h q"
    using find_module_out [of w h module q] by blast
  from a show "isabs q \<or> (q = module \<and> module \<in> set CORE_MODULES)"
    using find_module_out [of w h module q] by blast
qed

theorem core_module_short_circuit_witness:
  "''fs'' \<in> set CORE_MODULES \<and>
   find_require_module alias_host ''fs'' ''/p/a'' = (Inr (Some ''fs''), []) \<and>
   isabs ''/p/a'' \<and>
   fst (find_require_module alias_host ''./x.js'' ''/p/a'') = Inr (Some ''/p/a/x.js'') \<and>
   isfile alias_host ''/p/a/x.js'' \<and> isabs ''/p/a/x.js'' \<and>
   extract_variables alias_window ''file_path'' = Some ''/p/a'' \<and>
   extract_variables alias_window ''project_path'' = Some ''/p'' \<and>
   isabs ''/p'' \<and>
   fst (find_module alias_host alias_window ''widgets'') = Inr (Some ''/p/src/widgets/index.js'') \<and>
   isfile alias_host ''/p/src/widgets/index.js'' \<and> isabs ''/p/src/widgets/index.js''"
proof -
  have core: "''fs'' \<in> set CORE_MODULES"
    by (simp add: CORE_MODULES_def)
  have r1: "find_require_module alias_host ''fs'' ''/p/a'' = (Inr (Some ''fs''), [])"
    using core_module_short_circuit [where module = "''fs''" and h = alias_host
        and file_path = "''/p/a''", THEN conjunct1] core
    by (rule mp)
  have abs1: "isabs ''/p/a''"
    by (simp add: isabs_def startswith_def sep_def)
  have abs2: "isabs ''/p''"
    by (simp add: isabs_def startswith_def sep_def)
  have prim: "fst (find_require_module alias_host ''./x.js'' ''/p/a'') = Inr (Some ''/p/a/x.js'')"
    by code_simp
  have "(''/p/a/x.js'' = ''./x.js'' \<and> ''./x.js'' \<in> set CORE_MODULES) \<or>
      (isfile alias_host ''/p/a/x.js'' \<and> isabs ''/p/a/x.js'')"
    using core_module_short_circuit [where module = "''./x.js''" and h = alias_host
        and file_path = "''/p/a''" and p = "''/p/a/x.js''", THEN conjunct2, THEN conjunct1]
      abs1 prim
    by blast
  then have r2: "isfile alias_host ''/p/a/x.js'' \<and> isabs ''/p/a/x.js''"
    by simp
  have fp: "extract_variables alias_window ''file_path'' = Some ''/p/a''"
    by (simp add: alias_window_def)
  have pp: "extract_variables alias_window ''project_path'' = Some ''/p''"
    by (simp add: alias_window_def)
  have fpall: "\<forall>v. extract_variables alias_window ''file_path'' = Some v \<longrightarrow> isabs v"
    using fp abs1 by simp
  have ppall: "\<forall>v. extract_variables alias_window ''project_path'' = Some v \<longrightarrow> isabs v"
    using pp abs2 by simp
  have fm: "fst (find_module alias_host alias_window ''widgets'')
      = Inr (Some ''/p/src/widgets/index.js'')"
    by code_simp
  have "isfile alias_host ''/p/src/widgets/index.js'' \<and>
      (isabs ''/p/src/widgets/index.js'' \<or>
       (''/p/src/widgets/index.js'' = ''widgets'' \<and> ''widgets'' \<in> set CORE_MODULES))"
    using core_module_short_circuit [where module = "''widgets''" and h = alias_host
        and w = alias_window and q = "''/p/src/widgets/index.js''",
        THEN conjunct2, THEN conjunct2] fpall ppall fm
    by blast
  then have r3: "isfile alias_host ''/p/src/widgets/index.js'' \<and> isabs ''/p/src/widgets/index.js''"
    by simp
  show ?thesis
    using core r1 abs1 prim r2 fp pp abs2 fm r3 by blast
qed

text \<open>
  \<open>find_module\<close> passes the result of the top-level resolution through \<open>returnIfFile\<close>: the
  name of a core module is probed as a file name there, and without such a file and without
  alias roots \<open>find_module\<close> answers not-found, which makes \<open>open_module_file\<close> open the
  documentation of the module.
\<close>

lemma find_module_core_name:
  "find_module alias_host (alias_window\<lparr>webpack_resolve_modules := None\<rparr>) ''fs''
     = (Inr None, [Probe ''fs''])"
  by code_simp

section \<open>Segments of a path, on POSIX and on Windows\<close>




































end
